theory Spec2Isabelle
  imports Main "HOL-Library.Word" "HOL-Library.Char_ord" "HOL-Library.List_Lexorder"
begin

unbundle bit_operations_syntax

chapter \<open>The cross-ABI execution core of ipasim\<close>

text \<open>
  A shallow embedding of \<^verbatim>\<open>src/IpaSimulator/DynamicLoader.cpp\<close> and of the
  classes of \<^verbatim>\<open>include/ipasim/SysTranslator.hpp\<close>. The host process is a 32-bit
  one (guest addresses are host pointers, and pointers are cast to
  \<^verbatim>\<open>uint32_t\<close>), so \<^verbatim>\<open>size_t\<close> and pointers are 32-bit words and
  \<^verbatim>\<open>uint64_t\<close> is a 64-bit word.
\<close>

type_synonym u8 = "8 word"
type_synonym u32 = "32 word"
type_synonym u64 = "64 word"
type_synonym size_t = "32 word"

section \<open>TypeDecoder\<close>

text \<open>
  The decoder holds one pointer \<^verbatim>\<open>T\<close> into a NUL-terminated string. The
  cursor is the list of bytes from \<^verbatim>\<open>T\<close> up to and including the
  terminator; the empty list is the position one past the terminator, where a read is
  outside the string. Such a read is the fault \<open>ReadPastEnd\<close>.
\<close>

type_synonym cursor = "char list"

datatype fault = ReadPastEnd

definition c_str :: "string \<Rightarrow> cursor" where
  "c_str s = takeWhile (\<lambda>c. c \<noteq> CHR 0x00) s @ [CHR 0x00]"

definition InvalidSize :: size_t where
  "InvalidSize = - 1"

text \<open>
  The loop that skips the name of a struct:
  \<^verbatim>\<open>for (++T; *T != '='; ++T) if (!*T) { error; return InvalidSize; }\<close>,
  started after the first \<^verbatim>\<open>++T\<close>. The flag tells whether \<^verbatim>\<open>'='\<close> was
  found; the cursor is where the loop stopped.
\<close>

fun skipName :: "cursor \<Rightarrow> fault + (bool \<times> cursor)" where
  "skipName [] = Inl ReadPastEnd"
| "skipName (c # r) =
     (if c = CHR ''='' then Inr (True, c # r)
      else if c = CHR 0x00 then Inr (False, c # r)
      else skipName r)"

text \<open>
  The loop \<^verbatim>\<open>for (...; '0' <= *T && *T <= '9'; ++T);\<close> of
  \<^verbatim>\<open>getNextTypeSize\<close>, started after its \<^verbatim>\<open>++T\<close>.
\<close>

fun skipDigits :: "cursor \<Rightarrow> fault + cursor" where
  "skipDigits [] = Inl ReadPastEnd"
| "skipDigits (c # r) =
     (if CHR ''0'' \<le> c \<and> c \<le> CHR ''9'' then skipDigits r else Inr (c # r))"

text \<open>
  \<^verbatim>\<open>getNextTypeSizeImpl\<close>, \<^verbatim>\<open>getNextTypeSize\<close> and the
  \<^verbatim>\<open>while (*T != '}')\<close> loop of the struct case (\<open>structFields\<close>, with the
  running \<^verbatim>\<open>TotalSize\<close>). Each returns the size, the new cursor and the
  messages passed to \<^verbatim>\<open>Dyld.error\<close>.
\<close>

function getNextTypeSizeImpl :: "cursor \<Rightarrow> fault + (size_t \<times> cursor \<times> string list)"
  and getNextTypeSize :: "cursor \<Rightarrow> fault + (size_t \<times> cursor \<times> string list)"
  and structFields :: "size_t \<Rightarrow> cursor \<Rightarrow> fault + (size_t \<times> cursor \<times> string list)"
where
  "getNextTypeSizeImpl t =
     (case t of
        [] \<Rightarrow> Inl ReadPastEnd
      | c # r \<Rightarrow>
          if c = CHR ''v'' then Inr (0, t, [])
          else if c \<in> set ''c@:iIf'' then Inr (4, t, [])
          else if c = CHR ''^'' then
            (case getNextTypeSizeImpl r of
               Inl f \<Rightarrow> Inl f
             | Inr (_, t', errs) \<Rightarrow> Inr (4, t', errs))
          else if c = CHR ''{'' then
            (case skipName r of
               Inl f \<Rightarrow> Inl f
             | Inr (found, t') \<Rightarrow>
                 if \<not> found then Inr (InvalidSize, t', [''struct type ended unexpectedly''])
                 else structFields 0 (tl t'))
          else Inr (InvalidSize, t, [''unsupported type encoding'']))"
| "getNextTypeSize t =
     (case getNextTypeSizeImpl t of
        Inl f \<Rightarrow> Inl f
      | Inr (res, t', errs) \<Rightarrow>
          (case skipDigits (tl t') of
             Inl f \<Rightarrow> Inl f
           | Inr t'' \<Rightarrow> Inr (res, t'', errs)))"
| "structFields TotalSize t =
     (case t of
        [] \<Rightarrow> Inl ReadPastEnd
      | c # r \<Rightarrow>
          if c = CHR ''}'' then Inr (TotalSize, t, [])
          else
            (case getNextTypeSize t of
               Inl f \<Rightarrow> Inl f
             | Inr (sz, t', errs) \<Rightarrow>
                 if sz = InvalidSize then Inr (InvalidSize, t', errs)
                 else
                   (case structFields (TotalSize + sz) t' of
                      Inl f \<Rightarrow> Inl f
                    | Inr (sz', t'', errs') \<Rightarrow> Inr (sz', t'', errs @ errs'))))"
  by pat_completeness auto

lemma skipName_shorter:
  "skipName r = Inr (b, t') \<Longrightarrow> length t' \<le> length r \<and> t' \<noteq> []"
  by (induction r) (auto split: if_splits)

lemma skipDigits_shorter:
  "skipDigits r = Inr t' \<Longrightarrow> length t' \<le> length r \<and> t' \<noteq> []"
  by (induction r) (auto split: if_splits)

text \<open>
  Every call leaves the cursor inside the string, and \<^verbatim>\<open>getNextTypeSize\<close>
  moves it forward: what the termination of the struct loop rests on.
\<close>

lemma decoder_consumes:
  "getNextTypeSizeImpl_getNextTypeSize_structFields_dom (Inl t) \<Longrightarrow>
     (\<forall>s t' e. getNextTypeSizeImpl t = Inr (s, t', e) \<longrightarrow> length t' \<le> length t \<and> t' \<noteq> [])"
  "getNextTypeSizeImpl_getNextTypeSize_structFields_dom (Inr (Inl t)) \<Longrightarrow>
     (\<forall>s t' e. getNextTypeSize t = Inr (s, t', e) \<longrightarrow> length t' < length t \<and> t' \<noteq> [])"
  "getNextTypeSizeImpl_getNextTypeSize_structFields_dom (Inr (Inr (n, t))) \<Longrightarrow>
     (\<forall>s t' e. structFields n t = Inr (s, t', e) \<longrightarrow> length t' \<le> length t \<and> t' \<noteq> [])"
proof (induction t and t and n t rule: getNextTypeSizeImpl_getNextTypeSize_structFields.pinduct)
  case (1 t)
  note eq = getNextTypeSizeImpl.psimps[OF 1(1)]
  show ?case
  proof (intro allI impI)
    fix s t' e
    assume res: "getNextTypeSizeImpl t = Inr (s, t', e)"
    show "length t' \<le> length t \<and> t' \<noteq> []"
    proof (cases t)
      case Nil
      with eq res show ?thesis by simp
    next
      case (Cons c r)
      consider (plain) "c = CHR ''v'' \<or> c \<in> set ''c@:iIf''"
        | (ptr) "c \<noteq> CHR ''v''" "c \<notin> set ''c@:iIf''" "c = CHR ''^''"
        | (struct) "c \<noteq> CHR ''v''" "c \<notin> set ''c@:iIf''" "c \<noteq> CHR ''^''" "c = CHR ''{''"
        | (other) "c \<noteq> CHR ''v''" "c \<notin> set ''c@:iIf''" "c \<noteq> CHR ''^''" "c \<noteq> CHR ''{''"
        by blast
      then show ?thesis
      proof cases
        case plain
        with eq res Cons show ?thesis by (auto split: if_splits)
      next
        case ptr
        with eq res Cons 1(2)[OF Cons ptr] show ?thesis
          by (auto split: sum.splits prod.splits)
      next
        case struct
        show ?thesis
        proof (cases "skipName r")
          case (Inl f)
          with eq res Cons struct show ?thesis by simp
        next
          case (Inr b)
          obtain found u where b: "b = (found, u)" by (cases b)
          from Inr b have u: "length u \<le> length r" "u \<noteq> []"
            using skipName_shorter[of r found u] by auto
          show ?thesis
          proof (cases found)
            case False
            with eq res Cons struct Inr b u show ?thesis by auto
          next
            case True
            from 1(3)[OF Cons struct Inr b[symmetric]] True
            have "length t' \<le> length (tl u) \<and> t' \<noteq> []"
              using eq res Cons struct Inr b by auto
            with u show ?thesis using Cons by (cases u) auto
          qed
        qed
      next
        case other
        with eq res Cons show ?thesis by auto
      qed
    qed
  qed
next
  case (2 t)
  note eq = getNextTypeSize.psimps[OF 2(1)]
  show ?case
  proof (intro allI impI)
    fix s t' e
    assume res: "getNextTypeSize t = Inr (s, t', e)"
    from eq res obtain r u er where
      impl: "getNextTypeSizeImpl t = Inr (r, u, er)" and dig: "skipDigits (tl u) = Inr t'"
      by (auto split: sum.splits prod.splits)
    from 2(2) impl have "length u \<le> length t" "u \<noteq> []" by auto
    moreover from dig have "length t' \<le> length (tl u)" "t' \<noteq> []"
      using skipDigits_shorter[of "tl u" t'] by auto
    ultimately show "length t' < length t \<and> t' \<noteq> []" by (cases u) auto
  qed
next
  case (3 n t)
  note eq = structFields.psimps[OF 3(1)]
  show ?case
  proof (intro allI impI)
    fix s t' e
    assume res: "structFields n t = Inr (s, t', e)"
    show "length t' \<le> length t \<and> t' \<noteq> []"
    proof (cases t)
      case Nil
      with eq res show ?thesis by simp
    next
      case (Cons c r)
      show ?thesis
      proof (cases "c = CHR ''}''")
        case True
        with eq res Cons show ?thesis by auto
      next
        case False
        from eq res Cons False obtain sz u er where
          nx: "getNextTypeSize t = Inr (sz, u, er)"
          by (auto split: sum.splits prod.splits)
        from 3(2)[OF Cons False] nx have lt: "length u < length t" "u \<noteq> []" by auto
        show ?thesis
        proof (cases "sz = InvalidSize")
          case True
          with eq res Cons False nx lt show ?thesis by auto
        next
          case inv: False
          from 3(3)[OF Cons False, of "(sz, u, er)" sz "(u, er)" u er] nx Cons inv
          have "\<forall>s t' e. structFields (n + sz) u = Inr (s, t', e) \<longrightarrow>
                  length t' \<le> length u \<and> t' \<noteq> []"
            by auto
          moreover from eq res Cons False nx inv obtain s2 e2 where
            "structFields (n + sz) u = Inr (s2, t', e2)"
            by (auto split: sum.splits prod.splits)
          ultimately show ?thesis using lt by auto
        qed
      qed
    qed
  qed
qed

lemma decoder_total: "All getNextTypeSizeImpl_getNextTypeSize_structFields_dom"
proof (relation "measure (\<lambda>x. case x of
          Inl t \<Rightarrow> 3 * length t
        | Inr (Inl t) \<Rightarrow> 3 * length t + 1
        | Inr (Inr (n, t)) \<Rightarrow> 3 * length t + 2)", goal_cases)
  case 1
  show ?case by simp
next
  case (2 t c r)
  then show ?case by simp
next
  case (3 t c r b found u)
  then show ?case using skipName_shorter[of r found u] by (cases u) auto
next
  case (4 t)
  show ?case by simp
next
  case (5 n t c r)
  show ?case by simp
next
  case (6 n t c r b sz rest u errs)
  then show ?case using decoder_consumes(2)[of "c # r"] by auto
qed

termination getNextTypeSizeImpl
  by (rule decoder_total)

declare getNextTypeSizeImpl.simps [simp del]
declare getNextTypeSize.simps [simp del]
declare structFields.simps [simp del]

lemma getNextTypeSize_consumes:
  "getNextTypeSize t = Inr (s, t', e) \<Longrightarrow> length t' < length t"
  using decoder_consumes(2)[of t] decoder_total by simp

text \<open>\<^verbatim>\<open>bool hasNext() { return *T; }\<close>\<close>

definition hasNext :: "cursor \<Rightarrow> fault + bool" where
  "hasNext t = (case t of [] \<Rightarrow> Inl ReadPastEnd | c # _ \<Rightarrow> Inr (c \<noteq> CHR 0x00))"

text \<open>
  A driver for the decoder: \<^verbatim>\<open>while (TD.hasNext()) sizes.push_back(TD.getNextTypeSize());\<close>.
  It collects every size, the invalid ones too.
\<close>

function decodeAll :: "cursor \<Rightarrow> fault + size_t list" where
  "decodeAll t =
     (case hasNext t of
        Inl f \<Rightarrow> Inl f
      | Inr more \<Rightarrow>
          if \<not> more then Inr []
          else
            (case getNextTypeSize t of
               Inl f \<Rightarrow> Inl f
             | Inr (sz, t', errs) \<Rightarrow>
                 (case decodeAll t' of
                    Inl f \<Rightarrow> Inl f
                  | Inr szs \<Rightarrow> Inr (sz # szs))))"
  by pat_completeness auto

termination decodeAll
  by (relation "measure length") (auto dest: getNextTypeSize_consumes)

declare decodeAll.simps [simp del]

subsection \<open>The six encodings of the decoder's test\<close>

lemma decode_v: "decodeAll (c_str ''v'') = Inr [0]"
  by code_simp

lemma decode_scalars: "decodeAll (c_str ''c@:iIf'') = Inr [4, 4, 4, 4, 4, 4]"
  by code_simp

lemma decode_pointer: "decodeAll (c_str ''^i'') = Inr [4]"
  by code_simp

lemma decode_struct_ii: "decodeAll (c_str ''{S=ii}'') = Inr [8]"
  by code_simp

lemma decode_struct_empty: "decodeAll (c_str ''{S=}'') = Inr [0]"
  by code_simp

lemma decode_struct_space:
  "getNextTypeSize (c_str ''{S=^v i}'') =
     Inr (InvalidSize, [CHR ''}'', CHR 0x00], [''unsupported type encoding''])"
  by code_simp

lemma decode_struct_space_all:
  "decodeAll (c_str ''{S=^v i}'') = Inr [InvalidSize, InvalidSize]"
  by code_simp

lemma InvalidSize_not_small: "InvalidSize \<noteq> 0" "InvalidSize \<noteq> 4" "InvalidSize \<noteq> 8"
  by (simp_all add: InvalidSize_def)

text \<open>
  C3, as stated, fails at the sixth encoding: the decoder has no case for the space of
  \<^verbatim>\<open>{S=^v i}\<close>, so the field after the pointer is an unsupported encoding, the
  struct is invalid, and the sizes of the calls do not sum to 8.
\<close>

theorem C3_counterexample:
  "\<not> (\<exists>szs. decodeAll (c_str ''{S=^v i}'') = Inr szs \<and> sum_list szs = 8 \<and> InvalidSize \<notin> set szs)"
  by (simp add: decode_struct_space_all)

text \<open>
  C3, amended: for the encodings \<^verbatim>\<open>v\<close>, \<^verbatim>\<open>c@:iIf\<close>, \<^verbatim>\<open>^i\<close>,
  \<^verbatim>\<open>{S=ii}\<close> and \<^verbatim>\<open>{S=}\<close>, calling \<^verbatim>\<open>getNextTypeSize\<close> until
  \<^verbatim>\<open>hasNext\<close> is false yields sizes that sum to 0, 24, 4, 8 and 0, and no call
  returns the invalid sentinel; for \<^verbatim>\<open>{S=^v i}\<close> the first call returns the
  invalid sentinel and reports an unsupported type encoding.
\<close>

theorem C3_decoder_sizes:
  "(\<exists>szs. decodeAll (c_str ''v'') = Inr szs \<and> sum_list szs = 0 \<and> InvalidSize \<notin> set szs) \<and>
   (\<exists>szs. decodeAll (c_str ''c@:iIf'') = Inr szs \<and> sum_list szs = 4 + 4 + 4 + 4 + 4 + 4
      \<and> InvalidSize \<notin> set szs) \<and>
   (\<exists>szs. decodeAll (c_str ''^i'') = Inr szs \<and> sum_list szs = 4 \<and> InvalidSize \<notin> set szs) \<and>
   (\<exists>szs. decodeAll (c_str ''{S=ii}'') = Inr szs \<and> sum_list szs = 8 \<and> InvalidSize \<notin> set szs) \<and>
   (\<exists>szs. decodeAll (c_str ''{S=}'') = Inr szs \<and> sum_list szs = 0 \<and> InvalidSize \<notin> set szs) \<and>
   (\<exists>t' errs. getNextTypeSize (c_str ''{S=^v i}'') = Inr (InvalidSize, t', errs)
      \<and> ''unsupported type encoding'' \<in> set errs)"
  using InvalidSize_not_small
  by (simp add: decode_v decode_scalars decode_pointer decode_struct_ii decode_struct_empty
      decode_struct_space)

section \<open>Paths\<close>

text \<open>
  \<^verbatim>\<open>resolvePath\<close> uses \<^verbatim>\<open>std::filesystem::path\<close> of the Windows host:
  \<^verbatim>\<open>make_preferred\<close> turns every \<^verbatim>\<open>/\<close> into the preferred separator,
  the backslash, and a path is absolute when it has a root name and a root directory
  (a drive letter with a separator after the colon, or a root name that starts with
  separators such as a share or a device). Conversions between narrow and wide strings
  are taken to keep the bytes.
\<close>

record BinaryPath =
  Path :: string
  Relative :: bool

definition backslash :: char where
  "backslash = CHR 0x5C"

definition is_slash :: "char \<Rightarrow> bool" where
  "is_slash c = (c = CHR ''/'' \<or> c = backslash)"

definition make_preferred :: "string \<Rightarrow> string" where
  "make_preferred p = map (\<lambda>c. if c = CHR ''/'' then backslash else c) p"

definition is_letter :: "char \<Rightarrow> bool" where
  "is_letter c = ((CHR ''a'' \<le> c \<and> c \<le> CHR ''z'') \<or> (CHR ''A'' \<le> c \<and> c \<le> CHR ''Z''))"

fun has_drive_letter_prefix :: "string \<Rightarrow> bool" where
  "has_drive_letter_prefix (d # c # _) = (is_letter d \<and> c = CHR '':'')"
| "has_drive_letter_prefix _ = False"

fun has_root_name :: "string \<Rightarrow> bool" where
  "has_root_name (a # b # c # d # r) =
     (has_drive_letter_prefix (a # b # c # d # r) \<or>
      (is_slash a \<and>
        ((is_slash d \<and> (r = [] \<or> \<not> is_slash (hd r)) \<and>
            ((is_slash b \<and> (c = CHR ''?'' \<or> c = CHR ''.'')) \<or> (b = CHR ''?'' \<and> c = CHR ''?''))) \<or>
         (is_slash b \<and> \<not> is_slash c))))"
| "has_root_name (a # b # c # r) =
     (has_drive_letter_prefix (a # b # c # r) \<or> (is_slash a \<and> is_slash b \<and> \<not> is_slash c))"
| "has_root_name p = has_drive_letter_prefix p"

definition is_absolute :: "string \<Rightarrow> bool" where
  "is_absolute p =
     (if has_drive_letter_prefix p then 3 \<le> length p \<and> is_slash (p ! 2)
      else has_root_name p)"

definition is_relative :: "string \<Rightarrow> bool" where
  "is_relative p = (\<not> is_absolute p)"

definition resolvePath :: "string \<Rightarrow> BinaryPath" where
  "resolvePath P =
     (if P \<noteq> [] \<and> P ! 0 = CHR ''/''
      then \<lparr>Path = make_preferred (''gen'' @ P), Relative = True\<rparr>
      else \<lparr>Path = P, Relative = is_relative P\<rparr>)"

lemma gen_is_relative: "is_relative (make_preferred (''gen'' @ P))"
  by (cases P)
     (simp_all add: is_relative_def is_absolute_def make_preferred_def is_slash_def backslash_def)

lemma resolvePath_rooted:
  "P \<noteq> [] \<Longrightarrow> P ! 0 = CHR ''/'' \<Longrightarrow>
     resolvePath P = \<lparr>Path = ''gen'' @ backslash # make_preferred (tl P), Relative = True\<rparr>"
  by (cases P) (simp_all add: resolvePath_def make_preferred_def)


text \<open>
  C6: path resolution is idempotent; a path that begins with \<^verbatim>\<open>/\<close> resolves to a
  relative path that begins with \<^verbatim>\<open>gen\<close> and the host's separator (the rest
  with host separators); any other path is returned as it is, and whether it is relative
  is what the host's path rules say.
\<close>

theorem C6_resolvePath:
  "resolvePath (Path (resolvePath P)) = resolvePath P \<and>
   (P \<noteq> [] \<and> hd P = CHR ''/'' \<longrightarrow>
      Relative (resolvePath P) \<and>
      Path (resolvePath P) = ''gen'' @ backslash # make_preferred (tl P)) \<and>
   (\<not> (P \<noteq> [] \<and> hd P = CHR ''/'') \<longrightarrow>
      Path (resolvePath P) = P \<and> Relative (resolvePath P) = is_relative P)"
proof (cases "P \<noteq> [] \<and> hd P = CHR ''/''")
  case True
  then have P0: "P \<noteq> []" "P ! 0 = CHR ''/''"
    by (cases P; simp)+
  then have r: "resolvePath P =
      \<lparr>Path = ''gen'' @ backslash # make_preferred (tl P), Relative = True\<rparr>"
    by (rule resolvePath_rooted)
  have rel: "is_relative (''gen'' @ backslash # make_preferred (tl P))"
    using gen_is_relative[of P] P0 by (cases P) (simp_all add: make_preferred_def)
  have "resolvePath (''gen'' @ backslash # make_preferred (tl P)) =
          \<lparr>Path = ''gen'' @ backslash # make_preferred (tl P), Relative = True\<rparr>"
    using rel by (simp add: resolvePath_def)
  with r True show ?thesis by simp
next
  case False
  then have "\<not> (P \<noteq> [] \<and> P ! 0 = CHR ''/'')"
    by (cases P) simp_all
  then have "resolvePath P = \<lparr>Path = P, Relative = is_relative P\<rparr>"
    by (auto simp: resolvePath_def)
  with False show ?thesis by auto
qed

theorem C6_resolvePath_witness:
  "resolvePath (Path (resolvePath ''/usr/lib/libSystem.B.dylib'')) =
     resolvePath ''/usr/lib/libSystem.B.dylib'' \<and>
   Relative (resolvePath ''/usr/lib/libSystem.B.dylib'') \<and>
   Path (resolvePath ''/usr/lib/libSystem.B.dylib'') =
     ''gen'' @ [backslash] @ ''usr'' @ [backslash] @ ''lib'' @ [backslash] @ ''libSystem.B.dylib'' \<and>
   resolvePath (Path (resolvePath ''libobjc.dll'')) = resolvePath ''libobjc.dll'' \<and>
   Path (resolvePath ''libobjc.dll'') = ''libobjc.dll'' \<and>
   Relative (resolvePath ''libobjc.dll'')"
proof -
  have rooted: "''/usr/lib/libSystem.B.dylib'' \<noteq> [] \<and> hd ''/usr/lib/libSystem.B.dylib'' = CHR ''/''"
    by simp
  have plain: "\<not> (''libobjc.dll'' \<noteq> [] \<and> hd ''libobjc.dll'' = CHR ''/'')"
    by simp
  have pref: "''gen'' @ backslash # make_preferred (tl ''/usr/lib/libSystem.B.dylib'') =
      ''gen'' @ [backslash] @ ''usr'' @ [backslash] @ ''lib'' @ [backslash] @ ''libSystem.B.dylib''"
    by (simp add: make_preferred_def)
  have rel: "is_relative ''libobjc.dll''"
    by (simp add: is_relative_def is_absolute_def is_slash_def backslash_def)
  from C6_resolvePath[of "''/usr/lib/libSystem.B.dylib''"] rooted
  have a: "resolvePath (Path (resolvePath ''/usr/lib/libSystem.B.dylib'')) =
             resolvePath ''/usr/lib/libSystem.B.dylib''"
    and b: "Relative (resolvePath ''/usr/lib/libSystem.B.dylib'')"
    and c: "Path (resolvePath ''/usr/lib/libSystem.B.dylib'') =
             ''gen'' @ backslash # make_preferred (tl ''/usr/lib/libSystem.B.dylib'')"
    by blast+
  from C6_resolvePath[of "''libobjc.dll''"] plain
  have d: "resolvePath (Path (resolvePath ''libobjc.dll'')) = resolvePath ''libobjc.dll''"
    and e: "Path (resolvePath ''libobjc.dll'') = ''libobjc.dll''"
    and f: "Relative (resolvePath ''libobjc.dll'') = is_relative ''libobjc.dll''"
    by blast+
  from a b c[unfolded pref] d e f rel show ?thesis by blast
qed

section \<open>The data of the loader and the translator\<close>

subsection \<open>Host memory\<close>

text \<open>
  Guest addresses are host pointers, so one byte-addressed memory serves both. A
  \<^verbatim>\<open>uint32_t\<close> is stored little-endian, as on the x86 host.
\<close>

type_synonym memory = "u32 \<Rightarrow> u8"

definition read32 :: "memory \<Rightarrow> u32 \<Rightarrow> u32" where
  "read32 m a =
     ucast (m a) OR push_bit 8 (ucast (m (a + 1))) OR push_bit 16 (ucast (m (a + 2)))
       OR push_bit 24 (ucast (m (a + 3)))"

definition write32 :: "u32 \<Rightarrow> u32 \<Rightarrow> memory \<Rightarrow> memory" where
  "write32 a v m =
     m(a := ucast v, a + 1 := ucast (drop_bit 8 v), a + 2 := ucast (drop_bit 16 v),
       a + 3 := ucast (drop_bit 24 v))"

text \<open>\<^verbatim>\<open>memcpy(dst, buf.data(), buf.size())\<close> and \<^verbatim>\<open>memset(dst, 0, n)\<close>.\<close>

definition memcpy :: "u32 \<Rightarrow> u8 list \<Rightarrow> memory \<Rightarrow> memory" where
  "memcpy dst buf m = (\<lambda>a. if unat (a - dst) < length buf then buf ! unat (a - dst) else m a)"

definition memset0 :: "u32 \<Rightarrow> u32 \<Rightarrow> memory \<Rightarrow> memory" where
  "memset0 dst n m = (\<lambda>a. if a - dst < n then 0 else m a)"

subsection \<open>Registers of the emulated ARM core\<close>

text \<open>The values of \<^verbatim>\<open>uc_arm_reg\<close> that the code names (Unicorn's \<^verbatim>\<open>arm.h\<close>).\<close>

definition UC_ARM_REG_LR :: nat where "UC_ARM_REG_LR = 10"
definition UC_ARM_REG_PC :: nat where "UC_ARM_REG_PC = 11"
definition UC_ARM_REG_SP :: nat where "UC_ARM_REG_SP = 12"
definition UC_ARM_REG_R0 :: nat where "UC_ARM_REG_R0 = 66"
definition UC_ARM_REG_R3 :: nat where "UC_ARM_REG_R3 = 69"

subsection \<open>Mach-O binaries as LIEF presents them\<close>

datatype CPU_TYPES = CPU_TYPE_ANY | CPU_TYPE_X86 | CPU_TYPE_X86_64 | CPU_TYPE_ARM
  | CPU_TYPE_ARM64 | CPU_TYPE_POWERPC | CPU_TYPE_POWERPC64

datatype FILE_TYPES = MH_OBJECT | MH_EXECUTE | MH_FVMLIB | MH_CORE | MH_PRELOAD | MH_DYLIB
  | MH_DYLINKER | MH_BUNDLE | MH_DYLIB_STUB | MH_DSYM | MH_KEXT_BUNDLE

datatype HEADER_FLAGS = MH_NOUNDEFS | MH_DYLDLINK | MH_SPLIT_SEGS | MH_TWOLEVEL | MH_PIE

datatype RELOCATION_ORIGINS = ORIGIN_UNKNOWN | ORIGIN_DYLDINFO | ORIGIN_RELOC_TABLE

datatype BINDING_CLASS = BIND_CLASS_WEAK | BIND_CLASS_LAZY | BIND_CLASS_STANDARD
  | BIND_CLASS_THREADED

datatype BIND_TYPES = BIND_TYPE_POINTER | BIND_TYPE_TEXT_ABSOLUTE32 | BIND_TYPE_TEXT_PCREL32

record Header =
  cpu_type :: CPU_TYPES
  file_type :: FILE_TYPES
  flags :: "HEADER_FLAGS list"

record Relocation =
  is_pc_relative :: bool
  origin :: RELOCATION_ORIGINS
  rel_size :: nat
  rel_address :: u64

record SegmentCommand =
  virtual_address :: u64
  virtual_size :: u64
  init_protection :: u32
  content :: "u8 list"
  relocations :: "Relocation list"

record BindingInfo =
  binding_class :: BINDING_CLASS
  binding_type :: BIND_TYPES
  addend :: int
  has_library :: bool
  library_name :: string
  symbol_name :: string
  bind_address :: u64

record Binary =
  header :: Header
  is_pie :: bool
  segments :: "SegmentCommand list"
  libraries :: "string list"
  bindings :: "BindingInfo list"
  entrypoint :: u64

subsection \<open>Library records\<close>

text \<open>
  A \<^verbatim>\<open>LoadedDylib\<close> owns its parsed binary; a \<^verbatim>\<open>LoadedDll\<close> has the module
  handle \<^verbatim>\<open>Ptr\<close> and the flag \<^verbatim>\<open>MachOPoser\<close>. A field is \<open>None\<close> until
  the loader assigns it (the constructors are not part of the sources at hand).
\<close>

datatype LibraryKind = LoadedDylib Binary | LoadedDll

record LoadedLibrary =
  Kind :: LibraryKind
  StartAddress :: "u64 option"
  Size :: "u64 option"
  IsWrapperDLL :: "bool option"
  Ptr :: "u32 option"
  MachOPoser :: "bool option"

definition new_LoadedDylib :: "Binary \<Rightarrow> LoadedLibrary" where
  "new_LoadedDylib Bin =
     \<lparr>Kind = LoadedDylib Bin, StartAddress = None, Size = None, IsWrapperDLL = None,
      Ptr = None, MachOPoser = None\<rparr>"

definition new_LoadedDll :: LoadedLibrary where
  "new_LoadedDll =
     \<lparr>Kind = LoadedDll, StartAddress = None, Size = None, IsWrapperDLL = None,
      Ptr = None, MachOPoser = None\<rparr>"

subsection \<open>DynamicCaller, continuations and the DynamicLoader\<close>

record DynamicCaller =
  RegId :: nat
  Args :: "u32 list"

text \<open>
  The two closures handed to \<^verbatim>\<open>continueOutsideEmulation\<close>: the call of a wrapper
  with the captured \<^verbatim>\<open>R0\<close>, and the call through a \<^verbatim>\<open>DynamicCaller\<close>.
\<close>

datatype thunk = WrapperCall u64 u32 | DynamicCall DynamicCaller bool u64

text \<open>
  Pointers to library records are natural numbers, \<open>Objs\<close> is the heap that holds the
  records and \<open>NextObj\<close> the next fresh pointer. \<open>LIs\<close> is the
  \<^verbatim>\<open>std::map\<close> from resolved paths to the records it owns, in key order.
  \<open>Errors\<close> lists the messages given to \<^verbatim>\<open>error\<close>; \<open>Mapped\<close> the
  regions mapped into the emulator; \<open>Allocs\<close> counts the calls of
  \<^verbatim>\<open>_aligned_malloc\<close>; \<open>Stopped\<close> says that \<^verbatim>\<open>uc_emu_stop\<close> was called.
\<close>

record DynamicLoader =
  LIs :: "(string \<times> nat) list"
  Objs :: "nat \<Rightarrow> LoadedLibrary option"
  NextObj :: nat
  Regs :: "nat \<Rightarrow> u32"
  Mem :: memory
  Mapped :: "(u64 \<times> u64 \<times> u32) list"
  Allocs :: nat
  KernelAddr :: u64
  LRs :: "u32 list"
  Running :: bool
  Restart :: bool
  Continue :: bool
  Continuation :: "thunk option"
  Stopped :: bool
  Errors :: "string list"

record WrapperIndex =
  Map :: "u64 \<Rightarrow> nat option"
  Dylibs :: "string list"

datatype FileImage = MachOFile Binary | PEFile | OtherFile

text \<open>
  What the loader asks of its surroundings: the files and their parsers, the package and
  the storage API, the allocator, the host's loader of packaged libraries, the emulator's
  mapping call, the symbol tables and method types of loaded libraries, the wrapper index
  found at an address, and the native functions called by address.
\<close>

record World =
  PageSize :: u64
  to_hex_string :: "u64 \<Rightarrow> string"
  Files :: "(string \<times> FileImage) list"
  InstalledItem :: "string \<Rightarrow> bool"
  StorageFile :: "string \<Rightarrow> bool"
  aligned_malloc :: "nat \<Rightarrow> size_t \<Rightarrow> size_t \<Rightarrow> u32"
  LoadPackagedLibrary :: "string \<Rightarrow> u32"
  GetModuleInformation :: "u32 \<Rightarrow> (u32 \<times> u32) option"
  findSymbol :: "DynamicLoader \<Rightarrow> nat \<Rightarrow> string \<Rightarrow> u64"
  getMethodType :: "DynamicLoader \<Rightarrow> nat \<Rightarrow> u64 \<Rightarrow> string option"
  uc_mem_map_ptr :: "(u64 \<times> u64 \<times> u32) list \<Rightarrow> u64 \<Rightarrow> u64 \<Rightarrow> u32 \<Rightarrow> bool"
  WrapperIndexAt :: "u64 \<Rightarrow> WrapperIndex"
  HostFn :: "u32 \<Rightarrow> u32 list \<Rightarrow> DynamicLoader \<Rightarrow> u32 \<times> DynamicLoader"

definition error :: "string \<Rightarrow> DynamicLoader \<Rightarrow> DynamicLoader" where
  "error Msg D = D\<lparr>Errors := Errors D @ [Msg]\<rparr>"

definition uc_emu_stop :: "DynamicLoader \<Rightarrow> DynamicLoader" where
  "uc_emu_stop D = D\<lparr>Stopped := True\<rparr>"

section \<open>Entering and leaving emulation\<close>

text \<open>
  Reads and writes of the core registers through \<^verbatim>\<open>uc_reg_read\<close> and
  \<^verbatim>\<open>uc_reg_write\<close> return \<^verbatim>\<open>UC_ERR_OK\<close>, so \<^verbatim>\<open>callUC\<close> passes.

  \<open>execute_enter\<close> is \<^verbatim>\<open>execute(uint64_t Addr)\<close> up to the first start of
  the emulator: it saves \<^verbatim>\<open>LR\<close> on \<^verbatim>\<open>LRs\<close>, points \<^verbatim>\<open>LR\<close> to the
  kernel page and sets \<^verbatim>\<open>Running\<close>. What the emulator then runs is guest code.
\<close>

definition execute_enter :: "u64 \<Rightarrow> DynamicLoader \<Rightarrow> DynamicLoader" where
  "execute_enter Addr D =
     (let LR = Regs D UC_ARM_REG_LR;
          D1 = D\<lparr>LRs := LR # LRs D\<rparr>;
          RetAddr = (ucast (KernelAddr D1) :: u32);
          D2 = D1\<lparr>Regs := (Regs D1)(UC_ARM_REG_LR := RetAddr)\<rparr>
      in D2\<lparr>Running := True\<rparr>)"

text \<open>
  \<^verbatim>\<open>returnToKernel\<close>; \<^verbatim>\<open>LRs.top()\<close> on an empty stack is undefined, which
  is \<open>None\<close> here.
\<close>

definition returnToKernel :: "DynamicLoader \<Rightarrow> DynamicLoader option" where
  "returnToKernel D =
     (case LRs D of
        [] \<Rightarrow> None
      | LR # rest \<Rightarrow>
          (let D1 = D\<lparr>LRs := rest\<rparr>;
               D2 = D1\<lparr>Regs := (Regs D1)(UC_ARM_REG_LR := LR)\<rparr>;
               D3 = uc_emu_stop D2
           in Some (D3\<lparr>Running := False\<rparr>)))"

definition returnToEmulation :: "DynamicLoader \<Rightarrow> DynamicLoader" where
  "returnToEmulation D = D\<lparr>Restart := True\<rparr>"

definition continueOutsideEmulation :: "thunk \<Rightarrow> DynamicLoader \<Rightarrow> DynamicLoader" where
  "continueOutsideEmulation Cont D =
     (let D1 = D\<lparr>Continue := True\<rparr>;
          D2 = D1\<lparr>Continuation := Some Cont\<rparr>;
          D3 = uc_emu_stop D2
      in D3\<lparr>Running := False\<rparr>)"

text \<open>
  A history of the translator: entries into emulation, returns to the kernel page, and
  guest code in between, which may change any register.
\<close>

datatype action = Execute u64 | ReturnToKernel | Guest "(nat \<Rightarrow> u32) \<Rightarrow> (nat \<Rightarrow> u32)"

fun is_Execute :: "action \<Rightarrow> bool" where
  "is_Execute (Execute _) = True"
| "is_Execute _ = False"

fun is_ReturnToKernel :: "action \<Rightarrow> bool" where
  "is_ReturnToKernel ReturnToKernel = True"
| "is_ReturnToKernel _ = False"

fun step :: "action \<Rightarrow> DynamicLoader \<Rightarrow> DynamicLoader option" where
  "step (Execute Addr) D = Some (execute_enter Addr D)"
| "step ReturnToKernel D = returnToKernel D"
| "step (Guest f) D = Some (D\<lparr>Regs := f (Regs D)\<rparr>)"

fun run :: "action list \<Rightarrow> DynamicLoader \<Rightarrow> DynamicLoader option" where
  "run [] D = Some D"
| "run (a # as) D = (case step a D of None \<Rightarrow> None | Some D' \<Rightarrow> run as D')"

lemma step_depth:
  "step a D = Some D' \<Longrightarrow>
     length (LRs D') + (if is_ReturnToKernel a then 1 else 0) =
     length (LRs D) + (if is_Execute a then 1 else 0)"
  by (cases a)
     (auto simp: execute_enter_def returnToKernel_def uc_emu_stop_def Let_def
           split: list.splits)

lemma run_depth:
  "run as D = Some D' \<Longrightarrow>
     length (LRs D') + length (filter is_ReturnToKernel as) =
     length (LRs D) + length (filter is_Execute as)"
proof (induction as arbitrary: D)
  case Nil
  then show ?case by simp
next
  case (Cons a as)
  from Cons.prems obtain D1 where s: "step a D = Some D1" and r: "run as D1 = Some D'"
    by (auto split: option.splits)
  from Cons.IH[OF r] step_depth[OF s] show ?case by (auto split: if_splits)
qed

lemma execute_enter_push:
  "LRs (execute_enter Addr D) = Regs D UC_ARM_REG_LR # LRs D"
  "Regs (execute_enter Addr D) UC_ARM_REG_LR = ucast (KernelAddr D)"
  by (simp_all add: execute_enter_def Let_def)

lemma returnToKernel_pop:
  "returnToKernel D = Some D' \<Longrightarrow> LRs D = Regs D' UC_ARM_REG_LR # LRs D'"
  by (auto simp: returnToKernel_def uc_emu_stop_def Let_def split: list.splits)

text \<open>
  Between an entry and the return that matches it, a history that itself returns from
  every entry it makes leaves the stack below its own entries untouched; so the return
  restores the \<^verbatim>\<open>LR\<close> that the entry saved.
\<close>

fun balanced :: "nat \<Rightarrow> action list \<Rightarrow> bool" where
  "balanced n [] = (n = 0)"
| "balanced n (Execute _ # as) = balanced (Suc n) as"
| "balanced n (ReturnToKernel # as) = (case n of 0 \<Rightarrow> False | Suc m \<Rightarrow> balanced m as)"
| "balanced n (Guest _ # as) = balanced n as"

lemma run_balanced:
  "balanced n as \<Longrightarrow> length pre = n \<Longrightarrow> LRs D = pre @ base \<Longrightarrow>
     \<exists>D'. run as D = Some D' \<and> LRs D' = base"
proof (induction n as arbitrary: pre D rule: balanced.induct)
  case (1 n)
  then show ?case by simp
next
  case (2 n Addr as)
  have "LRs (execute_enter Addr D) = (Regs D UC_ARM_REG_LR # pre) @ base"
    using 2 by (simp add: execute_enter_push)
  from 2(1)[OF _ _ this] 2(2,3) show ?case by simp
next
  case (3 n as)
  then obtain m where n: "n = Suc m" and b: "balanced m as"
    by (auto split: nat.splits)
  with 3 obtain x pre' where pre: "pre = x # pre'" "length pre' = m"
    by (cases pre) auto
  with 3 obtain D1 where r: "returnToKernel D = Some D1" and l: "LRs D1 = pre' @ base"
    by (auto simp: returnToKernel_def uc_emu_stop_def Let_def)
  from 3(1)[OF n b pre(2) l] r show ?case by simp
next
  case (4 n f as)
  have "LRs (D\<lparr>Regs := f (Regs D)\<rparr>) = pre @ base"
    using 4 by simp
  from 4(1)[OF _ _ this] 4(2,3) show ?case by simp
qed

text \<open>
  C8: every \<^verbatim>\<open>execute(addr)\<close> pushes the current guest \<^verbatim>\<open>LR\<close> and puts
  \<^verbatim>\<open>KernelAddr\<close> into \<^verbatim>\<open>LR\<close> before emulation starts; every
  \<^verbatim>\<open>returnToKernel\<close> pops the top of \<^verbatim>\<open>LRs\<close> into \<^verbatim>\<open>LR\<close>; a return
  that matches an entry restores the \<^verbatim>\<open>LR\<close> the entry saved; and after any history
  of entries and returns the depth of \<^verbatim>\<open>LRs\<close> has grown by the number of entries
  less the number of returns, which from an empty stack is the number of entries not yet
  returned from.
\<close>

theorem C8_LR_stack:
  "LRs (execute_enter Addr D) = Regs D UC_ARM_REG_LR # LRs D \<and>
   Regs (execute_enter Addr D) UC_ARM_REG_LR = ucast (KernelAddr D) \<and>
   (\<forall>D'. returnToKernel D = Some D' \<longrightarrow> LRs D = Regs D' UC_ARM_REG_LR # LRs D') \<and>
   (\<forall>as. balanced 0 as \<longrightarrow>
      (\<exists>D1 D'. run (Execute Addr # as) D = Some D1 \<and> returnToKernel D1 = Some D' \<and>
         LRs D' = LRs D \<and> Regs D' UC_ARM_REG_LR = Regs D UC_ARM_REG_LR)) \<and>
   (\<forall>as D'. run as D = Some D' \<longrightarrow>
      length (LRs D') + length (filter is_ReturnToKernel as) =
      length (LRs D) + length (filter is_Execute as)) \<and>
   (\<forall>as D'. LRs D = [] \<and> run as D = Some D' \<longrightarrow>
      length (LRs D') = length (filter is_Execute as) - length (filter is_ReturnToKernel as))"
proof (intro conjI allI impI)
  show "LRs (execute_enter Addr D) = Regs D UC_ARM_REG_LR # LRs D"
    by (rule execute_enter_push)
  show "Regs (execute_enter Addr D) UC_ARM_REG_LR = ucast (KernelAddr D)"
    by (rule execute_enter_push)
next
  fix D'
  assume "returnToKernel D = Some D'"
  then show "LRs D = Regs D' UC_ARM_REG_LR # LRs D'"
    by (rule returnToKernel_pop)
next
  fix as
  assume b: "balanced 0 as"
  have "LRs (execute_enter Addr D) = [] @ (Regs D UC_ARM_REG_LR # LRs D)"
    by (simp add: execute_enter_push)
  from run_balanced[OF b _ this] obtain D1 where
    r: "run as (execute_enter Addr D) = Some D1" and l: "LRs D1 = Regs D UC_ARM_REG_LR # LRs D"
    by auto
  from l obtain D' where k: "returnToKernel D1 = Some D'"
    by (auto simp: returnToKernel_def Let_def)
  from returnToKernel_pop[OF k] l have "LRs D' = LRs D" "Regs D' UC_ARM_REG_LR = Regs D UC_ARM_REG_LR"
    by auto
  with r k show "\<exists>D1 D'. run (Execute Addr # as) D = Some D1 \<and> returnToKernel D1 = Some D' \<and>
         LRs D' = LRs D \<and> Regs D' UC_ARM_REG_LR = Regs D UC_ARM_REG_LR"
    by auto
next
  fix as D'
  assume "run as D = Some D'"
  then show "length (LRs D') + length (filter is_ReturnToKernel as) =
      length (LRs D) + length (filter is_Execute as)"
    by (rule run_depth)
next
  fix as D'
  assume "LRs D = [] \<and> run as D = Some D'"
  then show "length (LRs D') = length (filter is_Execute as) - length (filter is_ReturnToKernel as)"
    using run_depth[of as D D'] by auto
qed

section \<open>DynamicCaller\<close>

definition DynamicCaller_new :: DynamicCaller where
  "DynamicCaller_new = \<lparr>RegId = UC_ARM_REG_R0, Args = []\<rparr>"

text \<open>One round of the loop of \<^verbatim>\<open>loadArg\<close>: the next word comes from a register or from the stack.\<close>

definition loadWord :: "DynamicLoader \<Rightarrow> DynamicCaller \<Rightarrow> DynamicCaller" where
  "loadWord D DC =
     (if RegId DC \<le> UC_ARM_REG_R3
      then DC\<lparr>RegId := RegId DC + 1, Args := Args DC @ [Regs D (RegId DC)]\<rparr>
      else
        (let SP = Regs D UC_ARM_REG_SP;
             SP' = SP + (of_nat (length (Args DC)) - 4) * 4
         in DC\<lparr>Args := Args DC @ [read32 (Mem D) SP']\<rparr>))"

text \<open>
  \<^verbatim>\<open>for (size_t I = 0; I != Size; I += 4)\<close>: the counter wraps around, and the loop
  does not end when \<^verbatim>\<open>Size\<close> is no multiple of 4 (the result is then \<open>None\<close>).
\<close>

partial_function (option) loadArg_loop ::
  "DynamicLoader \<Rightarrow> size_t \<Rightarrow> size_t \<Rightarrow> DynamicCaller \<Rightarrow> DynamicCaller option" where
  "loadArg_loop D Sz I DC =
     (if I \<noteq> Sz then loadArg_loop D Sz (I + 4) (loadWord D DC) else Some DC)"

definition loadArg :: "DynamicLoader \<Rightarrow> size_t \<Rightarrow> DynamicCaller \<Rightarrow> DynamicCaller option" where
  "loadArg D Sz DC = loadArg_loop D Sz 0 DC"

text \<open>The calls \<^verbatim>\<open>DC->loadArg(Size)\<close> for a list of sizes, one after the other.\<close>

fun loadArgs :: "DynamicLoader \<Rightarrow> size_t list \<Rightarrow> DynamicCaller \<Rightarrow> DynamicCaller option" where
  "loadArgs D [] DC = Some DC"
| "loadArgs D (Sz # Szs) DC =
     (case loadArg D Sz DC of None \<Rightarrow> None | Some DC' \<Rightarrow> loadArgs D Szs DC')"

text \<open>
  \<^verbatim>\<open>call3\<close> calls the native function at \<^verbatim>\<open>Addr\<close> with the parameters and,
  when it returns a value, writes it to \<^verbatim>\<open>R0\<close>; \<^verbatim>\<open>call2<N>\<close> appends
  \<^verbatim>\<open>Args[Args.size() - N]\<close> to the parameters until \<^verbatim>\<open>N\<close> is 0.
\<close>

definition call3 :: "World \<Rightarrow> bool \<Rightarrow> u32 \<Rightarrow> u32 list \<Rightarrow> DynamicLoader \<Rightarrow> DynamicLoader" where
  "call3 W Returns Addr Params D =
     (let (RetVal, D') = HostFn W Addr Params D
      in if Returns then D'\<lparr>Regs := (Regs D')(UC_ARM_REG_R0 := RetVal)\<rparr> else D')"

fun call2 :: "World \<Rightarrow> nat \<Rightarrow> bool \<Rightarrow> u32 \<Rightarrow> u32 list \<Rightarrow> DynamicCaller \<Rightarrow> DynamicLoader \<Rightarrow> DynamicLoader" where
  "call2 W 0 Returns Addr Params DC D = call3 W Returns Addr Params D"
| "call2 W (Suc N) Returns Addr Params DC D =
     call2 W N Returns Addr (Params @ [Args DC ! (length (Args DC) - Suc N)]) DC D"

definition call1 :: "World \<Rightarrow> nat \<Rightarrow> bool \<Rightarrow> u32 \<Rightarrow> DynamicCaller \<Rightarrow> DynamicLoader \<Rightarrow> DynamicLoader" where
  "call1 W N Returns Addr DC D = call2 W N Returns Addr [] DC D"

definition call0 :: "World \<Rightarrow> nat \<Rightarrow> bool \<Rightarrow> u32 \<Rightarrow> DynamicCaller \<Rightarrow> DynamicLoader \<Rightarrow> DynamicLoader" where
  "call0 W N Returns Addr DC D =
     (if Returns then call1 W N True Addr DC D else call1 W N False Addr DC D)"

definition call :: "World \<Rightarrow> bool \<Rightarrow> u32 \<Rightarrow> DynamicCaller \<Rightarrow> DynamicLoader \<Rightarrow> bool \<times> DynamicLoader" where
  "call W Returns Addr DC D =
     (if length (Args DC) \<in> {0, 1, 2, 3, 4, 5, 6}
      then (True, call0 W (length (Args DC)) Returns Addr DC D)
      else (False, error ''function has too many arguments'' D))"

text \<open>The argument word with index \<open>i\<close>, as the guest's calling convention places it.\<close>

definition argWord :: "DynamicLoader \<Rightarrow> nat \<Rightarrow> u32" where
  "argWord D i =
     (if i < 4 then Regs D (UC_ARM_REG_R0 + i)
      else read32 (Mem D) (Regs D UC_ARM_REG_SP + (of_nat i - 4) * 4))"

definition staged :: "DynamicLoader \<Rightarrow> DynamicCaller \<Rightarrow> bool" where
  "staged D DC =
     (Args DC = map (argWord D) [0..<length (Args DC)] \<and>
      RegId DC = UC_ARM_REG_R0 + min (length (Args DC)) 4)"

lemma loadWord_staged:
  "staged D DC \<Longrightarrow> staged D (loadWord D DC) \<and> length (Args (loadWord D DC)) = Suc (length (Args DC))"
  unfolding staged_def loadWord_def
  by (auto simp: UC_ARM_REG_R0_def UC_ARM_REG_R3_def argWord_def Let_def min_def)

lemma loadWord_funpow_staged:
  "staged D DC \<Longrightarrow>
     staged D ((loadWord D ^^ k) DC) \<and> length (Args ((loadWord D ^^ k) DC)) = length (Args DC) + k"
  by (induction k) (auto dest: loadWord_staged)

lemma loadArg_loop_rounds:
  "j \<le> k \<Longrightarrow> k < 2 ^ 30 \<Longrightarrow>
     loadArg_loop D (4 * of_nat k) (4 * of_nat (k - j)) DC = Some ((loadWord D ^^ j) DC)"
proof (induction j arbitrary: DC)
  case 0
  then show ?case by (subst loadArg_loop.simps) simp
next
  case (Suc j)
  have ne: "(4 * of_nat (k - Suc j) :: size_t) \<noteq> 4 * of_nat k"
  proof
    assume "(4 * of_nat (k - Suc j) :: size_t) = 4 * of_nat k"
    then have "(of_nat (4 * (k - Suc j)) :: size_t) = of_nat (4 * k)" by simp
    moreover have "4 * (k - Suc j) < 2 ^ 32" "4 * k < 2 ^ 32" using Suc.prems by auto
    ultimately have "4 * (k - Suc j) = 4 * k"
      using of_nat_inverse[of "4 * (k - Suc j)" "of_nat (4 * k) :: size_t"]
            of_nat_inverse[of "4 * k" "of_nat (4 * k) :: size_t"]
      by simp
    with Suc.prems show False by auto
  qed
  have nxt: "(4 * of_nat (k - Suc j) + 4 :: size_t) = 4 * of_nat (k - j)"
  proof -
    from Suc.prems have "k - j = Suc (k - Suc j)" by auto
    then show ?thesis by simp
  qed
  from Suc.prems have "j \<le> k" by simp
  from Suc.IH[OF this Suc.prems(2), of "loadWord D DC"] ne nxt show ?case
    by (subst loadArg_loop.simps) (simp add: funpow_swap1)
qed

lemma loadArg_rounds:
  "k < 2 ^ 30 \<Longrightarrow> loadArg D (4 * of_nat k) DC = Some ((loadWord D ^^ k) DC)"
  using loadArg_loop_rounds[of k k D DC] by (simp add: loadArg_def)

lemma loadArgs_staged:
  "\<forall>k \<in> set ks. k < 2 ^ 30 \<Longrightarrow> staged D DC \<Longrightarrow>
     \<exists>DC'. loadArgs D (map (\<lambda>k. 4 * of_nat k) ks) DC = Some DC' \<and> staged D DC' \<and>
       length (Args DC') = length (Args DC) + sum_list ks"
proof (induction ks arbitrary: DC)
  case Nil
  then show ?case by simp
next
  case (Cons k ks)
  let ?DC1 = "(loadWord D ^^ k) DC"
  from Cons.prems have k: "k < 2 ^ 30" by simp
  from loadWord_funpow_staged[OF Cons.prems(2), of k]
  have st: "staged D ?DC1" and len: "length (Args ?DC1) = length (Args DC) + k" by auto
  from Cons.prems have "\<forall>k \<in> set ks. k < 2 ^ 30" by simp
  from Cons.IH[OF this st] obtain DC' where
    "loadArgs D (map (\<lambda>k. 4 * of_nat k) ks) ?DC1 = Some DC'" "staged D DC'"
    "length (Args DC') = length (Args ?DC1) + sum_list ks"
    by blast
  with len loadArg_rounds[OF k, of D DC] show ?case by simp
qed

lemma staged_new: "staged D DynamicCaller_new"
  by (simp add: staged_def DynamicCaller_new_def)

lemma call2_collect:
  "N \<le> length (Args DC) \<Longrightarrow>
     call2 W N Returns Addr Params DC D =
       call3 W Returns Addr (Params @ drop (length (Args DC) - N) (Args DC)) D"
proof (induction N arbitrary: Params)
  case 0
  then show ?case by simp
next
  case (Suc N)
  let ?n = "length (Args DC)"
  from Suc.prems have lt: "?n - Suc N < ?n" and eq: "Suc (?n - Suc N) = ?n - N" by auto
  from Cons_nth_drop_Suc[OF lt] eq
  have "drop (?n - Suc N) (Args DC) = Args DC ! (?n - Suc N) # drop (?n - N) (Args DC)"
    by simp
  with Suc show ?case by simp
qed

lemma call_dispatch:
  "length (Args DC) \<le> 6 \<Longrightarrow>
     call W Returns Addr DC D = (True, call3 W Returns Addr (Args DC) D)"
proof -
  assume le: "length (Args DC) \<le> 6"
  then have "length (Args DC) \<in> {0, 1, 2, 3, 4, 5, 6}"
    by (simp del: length_0_conv) arith
  then show ?thesis
    by (simp add: call_def call0_def call1_def call2_collect del: insert_iff)
qed

lemma call_too_many:
  "6 < length (Args DC) \<Longrightarrow>
     call W Returns Addr DC D = (False, error ''function has too many arguments'' D)"
  by (auto simp: call_def)

text \<open>
  C7: the words are staged in order, the first four from \<^verbatim>\<open>R0..R3\<close> and the word
  with index \<open>i \<ge> 4\<close> from the guest stack at \<^verbatim>\<open>SP + (i - 4) * 4\<close>; with at most
  six words \<^verbatim>\<open>call\<close> calls the native function with them, writes the value it
  returns to \<^verbatim>\<open>R0\<close> when \<^verbatim>\<open>Returns\<close> is true, and returns true; with more
  than six it reports an error and returns false, and nothing is called.
\<close>

theorem C7_DynamicCaller:
  "(\<forall>ks. (\<forall>k \<in> set ks. k < 2 ^ 30) \<longrightarrow>
      (\<exists>DC'. loadArgs D (map (\<lambda>k. 4 * of_nat k) ks) DynamicCaller_new = Some DC' \<and>
         length (Args DC') = sum_list ks \<and>
         (\<forall>i < length (Args DC'). Args DC' ! i =
            (if i < 4 then Regs D (UC_ARM_REG_R0 + i)
             else read32 (Mem D) (Regs D UC_ARM_REG_SP + (of_nat i - 4) * 4))))) \<and>
   (length (Args DC) \<le> 6 \<longrightarrow>
      call W Returns Addr DC D =
        (True,
         let (RetVal, D') = HostFn W Addr (Args DC) D
         in if Returns then D'\<lparr>Regs := (Regs D')(UC_ARM_REG_R0 := RetVal)\<rparr> else D')) \<and>
   (6 < length (Args DC) \<longrightarrow>
      call W Returns Addr DC D = (False, error ''function has too many arguments'' D))"
proof (intro conjI allI impI)
  fix ks :: "nat list"
  assume ks: "\<forall>k \<in> set ks. k < 2 ^ 30"
  from loadArgs_staged[OF ks staged_new, of D] obtain DC' where
    l: "loadArgs D (map (\<lambda>k. 4 * of_nat k) ks) DynamicCaller_new = Some DC'"
    and st: "staged D DC'" and len: "length (Args DC') = sum_list ks"
    by (auto simp: DynamicCaller_new_def)
  have "\<forall>i < length (Args DC'). Args DC' ! i = argWord D i"
  proof (intro allI impI)
    fix i
    assume i: "i < length (Args DC')"
    from st have "Args DC' ! i = map (argWord D) [0..<length (Args DC')] ! i"
      by (simp add: staged_def)
    with i show "Args DC' ! i = argWord D i" by simp
  qed
  with l len show "\<exists>DC'. loadArgs D (map (\<lambda>k. 4 * of_nat k) ks) DynamicCaller_new = Some DC' \<and>
         length (Args DC') = sum_list ks \<and>
         (\<forall>i < length (Args DC'). Args DC' ! i =
            (if i < 4 then Regs D (UC_ARM_REG_R0 + i)
             else read32 (Mem D) (Regs D UC_ARM_REG_SP + (of_nat i - 4) * 4)))"
    by (auto simp: argWord_def)
next
  assume "length (Args DC) \<le> 6"
  then show "call W Returns Addr DC D =
        (True,
         let (RetVal, D') = HostFn W Addr (Args DC) D
         in if Returns then D'\<lparr>Regs := (Regs D')(UC_ARM_REG_R0 := RetVal)\<rparr> else D')"
    by (simp add: call_dispatch call3_def)
next
  assume "6 < length (Args DC)"
  then show "call W Returns Addr DC D = (False, error ''function has too many arguments'' D)"
    by (rule call_too_many)
qed

section \<open>A guest state and a host for the examples\<close>

definition guest0 :: DynamicLoader where
  "guest0 =
     \<lparr>LIs = [], Objs = (\<lambda>_. None), NextObj = 0,
      Regs = (\<lambda>r. if r = 66 then 11 else if r = 67 then 22 else if r = 68 then 33
                else if r = 69 then 44 else if r = 12 then 0x2000 else if r = 10 then 0x4444
                else 0),
      Mem = write32 0x2000 55 (write32 0x2004 66 (\<lambda>_. 0)),
      Mapped = [], Allocs = 0, KernelAddr = 0x7000, LRs = [],
      Running = False, Restart = False, Continue = False, Continuation = None,
      Stopped = False, Errors = []\<rparr>"

text \<open>A host whose native functions return the sum of their arguments.\<close>

definition host0 :: World where
  "host0 =
     \<lparr>PageSize = 0x1000, to_hex_string = (\<lambda>_. ''''), Files = [],
      InstalledItem = (\<lambda>_. False), StorageFile = (\<lambda>_. False),
      aligned_malloc = (\<lambda>_ _ _. 0), LoadPackagedLibrary = (\<lambda>_. 0),
      GetModuleInformation = (\<lambda>_. None), findSymbol = (\<lambda>_ _ _. 0),
      getMethodType = (\<lambda>_ _ _. None), uc_mem_map_ptr = (\<lambda>_ _ _ _. True),
      WrapperIndexAt = (\<lambda>_. \<lparr>Map = (\<lambda>_. None), Dylibs = []\<rparr>),
      HostFn = (\<lambda>_ Params D. (sum_list Params, D))\<rparr>"

lemma read_guest0:
  "read32 (Mem guest0) 0x2000 = 55" "read32 (Mem guest0) 0x2004 = 66"
  by (simp_all add: guest0_def read32_def write32_def)

theorem C7_DynamicCaller_witness:
  "(\<exists>DC'. loadArgs guest0 [4, 8, 12] DynamicCaller_new = Some DC' \<and>
      Args DC' = [11, 22, 33, 44, 55, 66]) \<and>
   call host0 True 0x5000 \<lparr>RegId = 70, Args = [11, 22, 33, 44, 55, 66]\<rparr> guest0 =
     (True, guest0\<lparr>Regs := (Regs guest0)(UC_ARM_REG_R0 := 231)\<rparr>) \<and>
   call host0 True 0x5000 \<lparr>RegId = 70, Args = [1, 2, 3, 4, 5, 6, 7]\<rparr> guest0 =
     (False, error ''function has too many arguments'' guest0)"
proof -
  have ks: "\<forall>k \<in> set [1, 2, 3]. k < (2::nat) ^ 30" by simp
  note inst = C7_DynamicCaller[of guest0 _ host0 True "0x5000"]
  from inst[of "\<lparr>RegId = 70, Args = []\<rparr>"] ks obtain DC' where
    l: "loadArgs guest0 (map (\<lambda>k. 4 * of_nat k) [1, 2, 3]) DynamicCaller_new = Some DC'"
    and len: "length (Args DC') = sum_list [1, 2, 3]"
    and w: "\<forall>i < length (Args DC'). Args DC' ! i =
            (if i < 4 then Regs guest0 (UC_ARM_REG_R0 + i)
             else read32 (Mem guest0) (Regs guest0 UC_ARM_REG_SP + (of_nat i - 4) * 4))"
    by blast
  have "Args DC' = map (\<lambda>i. Args DC' ! i) [0..<6]"
    using len by (intro nth_equalityI) auto
  also have "\<dots> = [11, 22, 33, 44, 55, 66]"
    using w len read_guest0
    by (simp add: upt_rec UC_ARM_REG_R0_def UC_ARM_REG_SP_def guest0_def)
  finally have a: "Args DC' = [11, 22, 33, 44, 55, 66]" .
  from l have l': "loadArgs guest0 [4, 8, 12] DynamicCaller_new = Some DC'" by simp
  from inst[of "\<lparr>RegId = 70, Args = [11, 22, 33, 44, 55, 66]\<rparr>"]
  have c: "call host0 True 0x5000 \<lparr>RegId = 70, Args = [11, 22, 33, 44, 55, 66]\<rparr> guest0 =
     (True, guest0\<lparr>Regs := (Regs guest0)(UC_ARM_REG_R0 := 231)\<rparr>)"
    by (simp add: host0_def)
  from inst[of "\<lparr>RegId = 70, Args = [1, 2, 3, 4, 5, 6, 7]\<rparr>"]
  have d: "call host0 True 0x5000 \<lparr>RegId = 70, Args = [1, 2, 3, 4, 5, 6, 7]\<rparr> guest0 =
     (False, error ''function has too many arguments'' guest0)"
    by simp
  from l' a c d show ?thesis by blast
qed

theorem C8_LR_stack_witness:
  "balanced 0 [Execute 0x2000, Guest (\<lambda>r. r(UC_ARM_REG_LR := 0x99)), ReturnToKernel] \<and>
   (\<exists>D1 D'. run [Execute 0x1000, Execute 0x2000, Guest (\<lambda>r. r(UC_ARM_REG_LR := 0x99)),
                 ReturnToKernel] guest0 = Some D1 \<and>
      LRs D1 = [0x4444] \<and> Regs D1 UC_ARM_REG_LR = 0x7000 \<and>
      returnToKernel D1 = Some D' \<and> LRs D' = [] \<and> Regs D' UC_ARM_REG_LR = 0x4444)"
proof -
  let ?as = "[Execute 0x2000, Guest (\<lambda>r. r(UC_ARM_REG_LR := 0x99)), ReturnToKernel]"
  have b: "balanced 0 ?as" by simp
  have g: "LRs guest0 = []" "Regs guest0 UC_ARM_REG_LR = 0x4444" "KernelAddr guest0 = 0x7000"
    by (simp_all add: guest0_def UC_ARM_REG_LR_def)
  from C8_LR_stack[of "0x1000" guest0] b obtain D1 D' where
    r: "run (Execute 0x1000 # ?as) guest0 = Some D1" and k: "returnToKernel D1 = Some D'"
    and l: "LRs D' = LRs guest0" "Regs D' UC_ARM_REG_LR = Regs guest0 UC_ARM_REG_LR"
    by blast
  from C8_LR_stack[of "0x1000" guest0] r g
  have "length (LRs D1) + length (filter is_ReturnToKernel (Execute 0x1000 # ?as)) =
        length (LRs guest0) + length (filter is_Execute (Execute 0x1000 # ?as))"
    by blast
  then have len: "length (LRs D1) = 1" using g by simp
  from C8_LR_stack[of "0x1000" D1] k have "LRs D1 = Regs D' UC_ARM_REG_LR # LRs D'"
    by blast
  with l g have lrs: "LRs D1 = [0x4444]" by simp
  from r have "Regs D1 UC_ARM_REG_LR = 0x7000"
    by (auto simp: execute_enter_def returnToKernel_def uc_emu_stop_def Let_def g
          split: list.splits)
  with b r k l g lrs show ?thesis by auto
qed

section \<open>DynamicLoader: loading libraries\<close>

datatype 'a result = Returned 'a | Thrown string

subsection \<open>Helpers that the sources at hand only declare\<close>

text \<open>
  Modelled from the spec: \<^verbatim>\<open>alignToPageSize\<close> and \<^verbatim>\<open>roundToPageSize\<close>
  (\<^verbatim>\<open>Common.hpp\<close> is not under \<^verbatim>\<open>src/\<close>) align an address down to the page
  and round it up to the page size; the page size is a parameter of the world.
\<close>

definition alignToPageSize :: "World \<Rightarrow> u64 \<Rightarrow> u64" where
  "alignToPageSize W Addr = (Addr div PageSize W) * PageSize W"

definition roundToPageSize :: "World \<Rightarrow> u64 \<Rightarrow> u64" where
  "roundToPageSize W Addr = alignToPageSize W (Addr + PageSize W - 1)"

text \<open>
  Modelled from the spec: \<^verbatim>\<open>LoadedLibrary::isInRange\<close> (\<^verbatim>\<open>LoadedLibrary.cpp\<close>
  is not under \<^verbatim>\<open>src/\<close>) tells whether \<open>[StartAddress, StartAddress + Size)\<close>
  contains the address. A record whose range was never assigned contains no address.
\<close>

definition isInRange :: "DynamicLoader \<Rightarrow> nat \<Rightarrow> u64 \<Rightarrow> bool" where
  "isInRange D LL Addr =
     (case Objs D LL of
        None \<Rightarrow> False
      | Some L \<Rightarrow>
          (case (StartAddress L, Size L) of
             (Some s, Some n) \<Rightarrow> s \<le> Addr \<and> Addr < s + n
           | _ \<Rightarrow> False))"

text \<open>\<^verbatim>\<open>startsWith\<close> and \<^verbatim>\<open>endsWith\<close> on strings.\<close>

definition startsWith :: "string \<Rightarrow> string \<Rightarrow> bool" where
  "startsWith s p = (take (length p) s = p)"

definition endsWith :: "string \<Rightarrow> string \<Rightarrow> bool" where
  "endsWith s x = (length x \<le> length s \<and> drop (length s - length x) s = x)"

subsection \<open>The library index\<close>

text \<open>
  \<^verbatim>\<open>LIs[Path] = ...\<close> and \<^verbatim>\<open>LIs.erase(Path)\<close> on the map kept in key order;
  \<^verbatim>\<open>LIs.find\<close> is \<open>map_of\<close>.
\<close>

fun index_put :: "string \<Rightarrow> nat \<Rightarrow> (string \<times> nat) list \<Rightarrow> (string \<times> nat) list" where
  "index_put k v [] = [(k, v)]"
| "index_put k v ((k', v') # xs) =
     (if k = k' then (k, v) # xs
      else if k < k' then (k, v) # (k', v') # xs
      else (k', v') # index_put k v xs)"

definition index_erase :: "string \<Rightarrow> (string \<times> nat) list \<Rightarrow> (string \<times> nat) list" where
  "index_erase k xs = filter (\<lambda>e. fst e \<noteq> k) xs"

definition wf_index :: "(string \<times> nat) list \<Rightarrow> bool" where
  "wf_index xs = sorted_wrt (<) (map fst xs)"

text \<open>Assigning through a pointer to a library record.\<close>

definition update_lib ::
  "nat \<Rightarrow> (LoadedLibrary \<Rightarrow> LoadedLibrary) \<Rightarrow> DynamicLoader \<Rightarrow> DynamicLoader" where
  "update_lib LL f D = D\<lparr>Objs := (Objs D)(LL := map_option f (Objs D LL))\<rparr>"

text \<open>
  \<^verbatim>\<open>make_unique\<close> of a record and \<^verbatim>\<open>LIs[Path] = move(LL)\<close>: the record gets a
  fresh pointer; a record that the index held under the path before is destroyed.
\<close>

definition insert_lib :: "string \<Rightarrow> LoadedLibrary \<Rightarrow> DynamicLoader \<Rightarrow> nat \<times> DynamicLoader" where
  "insert_lib P L D =
     (let LLP = NextObj D;
          D1 = D\<lparr>Objs := (Objs D)(LLP := Some L), NextObj := Suc LLP\<rparr>;
          D2 = (case map_of (LIs D1) P of
                  None \<Rightarrow> D1
                | Some old \<Rightarrow> D1\<lparr>Objs := (Objs D1)(old := None)\<rparr>)
      in (LLP, D2\<lparr>LIs := index_put P LLP (LIs D2)\<rparr>))"

definition erase_lib :: "string \<Rightarrow> DynamicLoader \<Rightarrow> DynamicLoader" where
  "erase_lib P D =
     (let D1 = (case map_of (LIs D) P of
                  None \<Rightarrow> D
                | Some old \<Rightarrow> D\<lparr>Objs := (Objs D)(old := None)\<rparr>)
      in D1\<lparr>LIs := index_erase P (LIs D1)\<rparr>)"

subsection \<open>Files\<close>

text \<open>\<^verbatim>\<open>BinaryPath::isFileValid\<close>: the package is asked for a relative path, the storage API for any other.\<close>

definition isFileValid :: "World \<Rightarrow> BinaryPath \<Rightarrow> bool" where
  "isFileValid W BP =
     (if Relative BP then InstalledItem W (Path BP) else StorageFile W (Path BP))"

definition is_macho :: "World \<Rightarrow> string \<Rightarrow> bool" where
  "is_macho W P = (case map_of (Files W) P of Some (MachOFile _) \<Rightarrow> True | _ \<Rightarrow> False)"

definition is_pe :: "World \<Rightarrow> string \<Rightarrow> bool" where
  "is_pe W P = (case map_of (Files W) P of Some PEFile \<Rightarrow> True | _ \<Rightarrow> False)"

definition parse :: "World \<Rightarrow> string \<Rightarrow> Binary option" where
  "parse W P = (case map_of (Files W) P of Some (MachOFile Bin) \<Rightarrow> Some Bin | _ \<Rightarrow> None)"

subsection \<open>Mapping memory\<close>

definition UC_PROT_NONE :: u32 where "UC_PROT_NONE = 0"
definition UC_PROT_READ :: u32 where "UC_PROT_READ = 1"
definition UC_PROT_WRITE :: u32 where "UC_PROT_WRITE = 2"
definition UC_PROT_EXEC :: u32 where "UC_PROT_EXEC = 4"
definition VM_PROT_READ :: u32 where "VM_PROT_READ = 1"
definition VM_PROT_WRITE :: u32 where "VM_PROT_WRITE = 2"
definition VM_PROT_EXECUTE :: u32 where "VM_PROT_EXECUTE = 4"
definition R_SCATTERED :: u64 where "R_SCATTERED = 0x80000000"

text \<open>\<open>uc_mem_map_ptr\<close> of the world is true when Unicorn maps the region.\<close>

definition mapMemory :: "World \<Rightarrow> u64 \<Rightarrow> u64 \<Rightarrow> u32 \<Rightarrow> DynamicLoader \<Rightarrow> DynamicLoader" where
  "mapMemory W Addr Sz Perms D =
     (if uc_mem_map_ptr W (Mapped D) Addr Sz Perms
      then D\<lparr>Mapped := Mapped D @ [(Addr, Sz, Perms)]\<rparr>
      else error (''couldn't map memory at 0x'' @ to_hex_string W Addr @ '' of size 0x'' @
                  to_hex_string W Sz) D)"

subsection \<open>loadMachO\<close>

definition canSegmentsSlide :: "Binary \<Rightarrow> bool" where
  "canSegmentsSlide Bin =
     (let FType = file_type (header Bin)
      in FType = MH_DYLIB \<or> FType = MH_BUNDLE \<or> (FType = MH_EXECUTE \<and> is_pie Bin))"

text \<open>The first loop over the segments: the lowest and the highest address.\<close>

fun segmentBounds ::
  "World \<Rightarrow> SegmentCommand list \<Rightarrow> u64 \<Rightarrow> u64 \<Rightarrow> DynamicLoader \<Rightarrow> (u64 \<times> u64) \<times> DynamicLoader" where
  "segmentBounds W [] LowAddr HighAddr D = ((LowAddr, HighAddr), D)"
| "segmentBounds W (Seg # Segs) LowAddr HighAddr D =
     (let SegLow = virtual_address Seg;
          SegHigh = roundToPageSize W (SegLow + virtual_size Seg);
          D1 = (if (SegLow < HighAddr \<and> SegLow \<ge> LowAddr) \<or> (SegHigh > LowAddr \<and> SegHigh \<le> HighAddr)
                then error ''overlapping segments (after rounding to pagesize)'' D else D);
          LowAddr' = (if SegLow < LowAddr then SegLow else LowAddr);
          HighAddr' = (if SegHigh > HighAddr then SegHigh else HighAddr)
      in segmentBounds W Segs LowAddr' HighAddr' D1)"

text \<open>One relocation of a segment mapped at \<open>VAddr\<close> with size \<open>VSize\<close>.\<close>

definition relocate :: "u64 \<Rightarrow> u64 \<Rightarrow> u64 \<Rightarrow> u64 \<Rightarrow> Relocation \<Rightarrow> DynamicLoader \<Rightarrow> DynamicLoader" where
  "relocate LowAddr Slide VAddr VSize Rel D =
     (let D1 = (if is_pc_relative Rel \<or> origin Rel \<noteq> ORIGIN_DYLDINFO \<or> rel_size Rel \<noteq> 32 \<or>
                   (rel_address Rel AND R_SCATTERED) \<noteq> 0
                then error ''unsupported relocation'' D else D);
          RelBase = LowAddr + Slide;
          RelAddr = RelBase + rel_address Rel;
          D2 = (if RelAddr > VAddr + VSize \<or> RelAddr < VAddr
                then error ''relocation target out of range'' D1 else D1);
          Val = (ucast RelAddr :: u32)
      in if read32 (Mem D2) Val \<noteq> 0
         then D2\<lparr>Mem := write32 Val (ucast ((ucast (read32 (Mem D2) Val) :: u64) + Slide)) (Mem D2)\<rparr>
         else D2)"

text \<open>The body of the second loop over the segments: protection, copy, mapping, relocations.\<close>

definition segmentPerms :: "SegmentCommand \<Rightarrow> u32" where
  "segmentPerms Seg =
     (let VMProt = init_protection Seg;
          P1 = UC_PROT_NONE;
          P2 = (if VMProt AND VM_PROT_READ \<noteq> 0 then P1 OR UC_PROT_READ else P1);
          P3 = (if VMProt AND VM_PROT_WRITE \<noteq> 0 then P2 OR UC_PROT_WRITE else P2)
      in if VMProt AND VM_PROT_EXECUTE \<noteq> 0 then P3 OR UC_PROT_EXEC else P3)"

definition copySegment ::
  "World \<Rightarrow> u64 \<Rightarrow> u64 \<Rightarrow> u32 \<Rightarrow> SegmentCommand \<Rightarrow> DynamicLoader \<Rightarrow> DynamicLoader" where
  "copySegment W VAddr VSize Perms Seg D =
     (let MemP = (ucast VAddr :: u32)
      in if Perms = UC_PROT_NONE then mapMemory W VAddr VSize Perms D
         else
           (let Buff = content Seg;
                BuffSize = (of_nat (length Buff) :: size_t);
                Da = D\<lparr>Mem := memcpy MemP Buff (Mem D)\<rparr>;
                Db = mapMemory W VAddr VSize Perms Da
            in if ucast BuffSize < VSize
               then Db\<lparr>Mem := memset0 (MemP + BuffSize) (ucast (VSize - ucast BuffSize)) (Mem Db)\<rparr>
               else Db))"

definition loadSegment :: "World \<Rightarrow> u64 \<Rightarrow> u64 \<Rightarrow> SegmentCommand \<Rightarrow> DynamicLoader \<Rightarrow> DynamicLoader" where
  "loadSegment W LowAddr Slide Seg D =
     (let Perms = segmentPerms Seg;
          VAddr = virtual_address Seg + Slide;
          VSize = virtual_size Seg;
          D1 = copySegment W VAddr VSize Perms Seg D
      in if Slide > 0 then fold (relocate LowAddr Slide VAddr VSize) (relocations Seg) D1 else D1)"

text \<open>
  \<^verbatim>\<open>for (DylibCommand &Lib : Bin.libraries()) load(Lib.name());\<close>, with \<open>ld\<close> for
  the recursive \<^verbatim>\<open>load\<close>.
\<close>

fun loadLibraries ::
  "(string \<Rightarrow> DynamicLoader \<Rightarrow> (nat option result \<times> DynamicLoader) option) \<Rightarrow>
   string list \<Rightarrow> DynamicLoader \<Rightarrow> (unit result \<times> DynamicLoader) option" where
  "loadLibraries ld [] D = Some (Returned (), D)"
| "loadLibraries ld (Lib # Libs) D =
     (case ld Lib D of
        None \<Rightarrow> None
      | Some (Thrown e, D') \<Rightarrow> Some (Thrown e, D')
      | Some (Returned _, D') \<Rightarrow> loadLibraries ld Libs D')"

text \<open>
  The loop that binds external symbols, and its body \<open>bindSymbol\<close> (\<open>Returned\<close>
  where the source goes on to the next binding). \<^verbatim>\<open>findSymbol\<close> is a lookup that leaves the
  loader as it is. Modelled from the spec: \<^verbatim>\<open>LoadedLibrary::checkInRange\<close>
  (\<^verbatim>\<open>LoadedLibrary.cpp\<close> is not under \<^verbatim>\<open>src/\<close>) checks the address against the
  range of the library before the write; a failed check ends the load with an exception.
\<close>

definition bindSymbol ::
  "World \<Rightarrow> (string \<Rightarrow> DynamicLoader \<Rightarrow> (nat option result \<times> DynamicLoader) option) \<Rightarrow>
   nat \<Rightarrow> u64 \<Rightarrow> BindingInfo \<Rightarrow> DynamicLoader \<Rightarrow> (unit result \<times> DynamicLoader) option" where
  "bindSymbol W ld LLP Slide BInfo D =
     (if (binding_class BInfo \<noteq> BIND_CLASS_STANDARD \<and> binding_class BInfo \<noteq> BIND_CLASS_LAZY) \<or>
         binding_type BInfo \<noteq> BIND_TYPE_POINTER \<or> addend BInfo \<noteq> 0
      then Some (Returned (), error ''unsupported binding info'' D)
      else if \<not> has_library BInfo
      then Some (Returned (), error ''flat-namespace symbols are not supported yet'' D)
      else
        (let LibName = library_name BInfo
         in case ld LibName D of
              None \<Rightarrow> None
            | Some (Thrown e, D1) \<Rightarrow> Some (Thrown e, D1)
            | Some (Returned None, D1) \<Rightarrow>
                Some (Returned (), error ''symbol's library couldn't be loaded'' D1)
            | Some (Returned (Some Lib), D1) \<Rightarrow>
                (let SymName = symbol_name BInfo;
                     SymAddr = findSymbol W D1 Lib SymName
                 in if SymAddr = 0
                    then Some (Returned (),
                           error (''external symbol '' @ SymName @ '' from library '' @ LibName @
                                  '' couldn't be resolved'') D1)
                    else
                      (let TargetAddr = bind_address BInfo + Slide
                       in if \<not> isInRange D1 LLP TargetAddr
                          then Some (Thrown ''address out of range'', D1)
                          else Some (Returned (),
                                 D1\<lparr>Mem := write32 (ucast TargetAddr) (ucast SymAddr) (Mem D1)\<rparr>)))))"

fun bindSymbols ::
  "World \<Rightarrow> (string \<Rightarrow> DynamicLoader \<Rightarrow> (nat option result \<times> DynamicLoader) option) \<Rightarrow>
   nat \<Rightarrow> u64 \<Rightarrow> BindingInfo list \<Rightarrow> DynamicLoader \<Rightarrow> (unit result \<times> DynamicLoader) option" where
  "bindSymbols W ld LLP Slide [] D = Some (Returned (), D)"
| "bindSymbols W ld LLP Slide (BInfo # BInfos) D =
     (case bindSymbol W ld LLP Slide BInfo D of
        None \<Rightarrow> None
      | Some (Thrown e, D') \<Rightarrow> Some (Thrown e, D')
      | Some (Returned _, D') \<Rightarrow> bindSymbols W ld LLP Slide BInfos D')"

text \<open>The checks of the header: each reports an error and the load goes on.\<close>

definition checkHeader :: "Binary \<Rightarrow> DynamicLoader \<Rightarrow> DynamicLoader" where
  "checkHeader Bin D =
     (let Hdr = header Bin;
          D1 = (if cpu_type Hdr \<noteq> CPU_TYPE_ARM then error ''expected ARM binary'' D else D);
          D2 = (if MH_SPLIT_SEGS \<in> set (flags Hdr)
                then error ''MH_SPLIT_SEGS not supported'' D1 else D1)
      in if \<not> canSegmentsSlide Bin then error ''the binary is not slideable'' D2 else D2)"

text \<open>
  \<^verbatim>\<open>loadMachO\<close> up to the loop over the referenced libraries: the record enters the
  index, the header is checked, the image is allocated, and the segments are copied,
  mapped and relocated. The result is the pointer to the record, the slide and the
  loader.
\<close>

definition mapImage ::
  "World \<Rightarrow> string \<Rightarrow> Binary \<Rightarrow> DynamicLoader \<Rightarrow> nat \<times> u64 \<times> DynamicLoader" where
  "mapImage W P Bin D =
     (let (LLP, D2) = insert_lib P (new_LoadedDylib Bin) D;
          D5 = checkHeader Bin D2;
          ((LowAddr, HighAddr), D6) = segmentBounds W (segments Bin) (- 1) 0 D5;
          Sz = HighAddr - LowAddr;
          Addr = aligned_malloc W (Allocs D6) (ucast Sz) (ucast (PageSize W));
          D7 = D6\<lparr>Allocs := Suc (Allocs D6)\<rparr>;
          D8 = (if Addr = 0 then error ''couldn't allocate memory for segments'' D7 else D7);
          Slide = ucast Addr - LowAddr;
          D9 = update_lib LLP (\<lambda>L. L\<lparr>StartAddress := Some Slide, Size := Some Sz\<rparr>) D8;
          D10 = fold (loadSegment W LowAddr Slide) (segments Bin) D9
      in (LLP, Slide, D10))"

text \<open>
  \<^verbatim>\<open>loadMachO\<close>. LIEF's parser is given a file that \<^verbatim>\<open>is_macho\<close> accepted; on
  any other file the model stops with an exception.
\<close>

definition loadMachO ::
  "World \<Rightarrow> (string \<Rightarrow> DynamicLoader \<Rightarrow> (nat option result \<times> DynamicLoader) option) \<Rightarrow>
   string \<Rightarrow> DynamicLoader \<Rightarrow> (nat option result \<times> DynamicLoader) option" where
  "loadMachO W ld P D =
     (case parse W P of
        None \<Rightarrow> Some (Thrown ''not a Mach-O file'', D)
      | Some Bin \<Rightarrow>
          (let (LLP, Slide, D10) = mapImage W P Bin D
           in case loadLibraries ld (libraries Bin) D10 of
                None \<Rightarrow> None
              | Some (Thrown e, D11) \<Rightarrow> Some (Thrown e, D11)
              | Some (Returned _, D11) \<Rightarrow>
                  (case bindSymbols W ld LLP Slide (bindings Bin) D11 of
                     None \<Rightarrow> None
                   | Some (Thrown e, D12) \<Rightarrow> Some (Thrown e, D12)
                   | Some (Returned _, D12) \<Rightarrow> Some (Returned (Some LLP), D12))))"

subsection \<open>loadPE\<close>

definition loadPE :: "World \<Rightarrow> string \<Rightarrow> DynamicLoader \<Rightarrow> nat option \<times> DynamicLoader" where
  "loadPE W P D =
     (let (LLP, D2) = insert_lib P new_LoadedDll D;
          Lib = LoadPackagedLibrary W P
      in if Lib = 0
         then (let D3 = error (''couldn't load DLL: '' @ P) D2
               in (None, erase_lib P D3))
         else
           (let D3 = update_lib LLP (\<lambda>L. L\<lparr>Ptr := Some Lib\<rparr>) D2
            in case GetModuleInformation W Lib of
                 None \<Rightarrow> (None, error ''couldn't load module information'' D3)
               | Some (lpBaseOfDll, SizeOfImage) \<Rightarrow>
                   (let Hdr = findSymbol W D3 LLP ''_mh_dylib_header'';
                        Start = (if Hdr \<noteq> 0 then Hdr else ucast lpBaseOfDll);
                        Sz = (if Hdr \<noteq> 0 then ucast SizeOfImage - (Hdr - ucast lpBaseOfDll)
                              else ucast SizeOfImage);
                        D4 = update_lib LLP
                               (\<lambda>L. L\<lparr>StartAddress := Some Start, Size := Some Sz,
                                       MachOPoser := Some (Hdr \<noteq> 0)\<rparr>) D3;
                        StartAddr = alignToPageSize W Start;
                        Sz' = roundToPageSize W Sz;
                        D5 = mapMemory W StartAddr Sz' (UC_PROT_READ OR UC_PROT_WRITE) D4
                    in (Some LLP, D5))))"

subsection \<open>load\<close>

definition setIsWrapperDLL :: "BinaryPath \<Rightarrow> nat option \<Rightarrow> DynamicLoader \<Rightarrow> DynamicLoader" where
  "setIsWrapperDLL BP L D =
     (case L of
        None \<Rightarrow> D
      | Some LL \<Rightarrow>
          update_lib LL
            (\<lambda>R. R\<lparr>IsWrapperDLL :=
                     Some (Relative BP \<and> startsWith (Path BP) (''gen'' @ [backslash]) \<and>
                           endsWith (Path BP) ''.wrapper.dll'')\<rparr>) D)"

definition load_body ::
  "World \<Rightarrow> (string \<Rightarrow> DynamicLoader \<Rightarrow> (nat option result \<times> DynamicLoader) option) \<Rightarrow>
   string \<Rightarrow> DynamicLoader \<Rightarrow> (nat option result \<times> DynamicLoader) option" where
  "load_body W ld P D =
     (let BP = resolvePath P
      in case map_of (LIs D) (Path BP) of
           Some L \<Rightarrow> Some (Returned (Some L), D)
         | None \<Rightarrow>
             if \<not> isFileValid W BP
             then Some (Returned None, error (''invalid file: '' @ Path BP) D)
             else if is_macho W (Path BP)
             then (case loadMachO W ld (Path BP) D of
                     None \<Rightarrow> None
                   | Some (Thrown e, D') \<Rightarrow> Some (Thrown e, D')
                   | Some (Returned L, D') \<Rightarrow> Some (Returned L, setIsWrapperDLL BP L D'))
             else if is_pe W (Path BP)
             then (let (L, D') = loadPE W (Path BP) D
                   in Some (Returned L, setIsWrapperDLL BP L D'))
             else Some (Returned None, error (''invalid binary type: '' @ Path BP) D))"

text \<open>
  \<^verbatim>\<open>load\<close> calls itself through \<^verbatim>\<open>loadMachO\<close>. The first argument bounds the
  depth of these calls: \<open>None\<close> says that the bound was reached, and a load that
  returns does so for some bound.
\<close>

primrec load ::
  "nat \<Rightarrow> World \<Rightarrow> string \<Rightarrow> DynamicLoader \<Rightarrow> (nat option result \<times> DynamicLoader) option" where
  "load 0 W = (\<lambda>P D. None)"
| "load (Suc n) W = load_body W (load n W)"

section \<open>What every load keeps\<close>

text \<open>
  \<open>keeps D D'\<close>: every entry of the index of \<open>D\<close> is an entry of the index of
  \<open>D'\<close>, the index stays in strict key order if it was, and the errors of \<open>D\<close>
  are the first errors of \<open>D'\<close>.
\<close>

definition keeps :: "DynamicLoader \<Rightarrow> DynamicLoader \<Rightarrow> bool" where
  "keeps D D' =
     ((\<forall>k v. map_of (LIs D) k = Some v \<longrightarrow> map_of (LIs D') k = Some v) \<and>
      (wf_index (LIs D) \<longrightarrow> wf_index (LIs D')) \<and>
      (\<exists>es. Errors D' = Errors D @ es))"

lemma keeps_refl [simp]: "keeps D D"
  by (simp add: keeps_def)

lemma keeps_trans: "keeps D D1 \<Longrightarrow> keeps D1 D2 \<Longrightarrow> keeps D D2"
  unfolding keeps_def by (metis append.assoc)

lemma keeps_same: "LIs D' = LIs D \<Longrightarrow> Errors D' = Errors D \<Longrightarrow> keeps D D'"
  by (simp add: keeps_def)

lemma keeps_error [simp]: "keeps D (error Msg D)"
  by (simp add: keeps_def error_def)

lemma LIs_error [simp]: "LIs (error Msg D) = LIs D"
  by (simp add: error_def)

lemma Errors_error [simp]: "Errors (error Msg D) = Errors D @ [Msg]"
  by (simp add: error_def)

lemma keeps_errors: "keeps D D' \<Longrightarrow> set (Errors D) \<subseteq> set (Errors D')"
  by (auto simp: keeps_def)

lemma keeps_entry: "keeps D D' \<Longrightarrow> map_of (LIs D) k = Some v \<Longrightarrow> map_of (LIs D') k = Some v"
  by (simp add: keeps_def)

lemma keeps_wf: "keeps D D' \<Longrightarrow> wf_index (LIs D) \<Longrightarrow> wf_index (LIs D')"
  by (simp add: keeps_def)

subsection \<open>The index\<close>

lemma map_of_index_put [simp]: "map_of (index_put k v xs) = (map_of xs)(k \<mapsto> v)"
  by (induction xs) (auto simp: fun_eq_iff)

lemma keys_index_put: "set (map fst (index_put k v xs)) = insert k (set (map fst xs))"
proof -
  have "dom (map_of (index_put k v xs)) = insert k (dom (map_of xs))"
    by simp
  then show ?thesis unfolding dom_map_of_conv_image_fst by simp
qed

lemma wf_index_put: "wf_index xs \<Longrightarrow> wf_index (index_put k v xs)"
proof (induction xs)
  case Nil
  then show ?case by (simp add: wf_index_def)
next
  case (Cons e xs)
  obtain k' v' where e: "e = (k', v')" by (cases e)
  from Cons.prems have tl: "wf_index xs" and hd: "\<forall>x \<in> set (map fst xs). k' < x"
    by (auto simp: wf_index_def e)
  show ?case
  proof (cases "k = k'")
    case True
    with Cons.prems show ?thesis by (simp add: e wf_index_def)
  next
    case False
    show ?thesis
    proof (cases "k < k'")
      case True
      with Cons.prems hd show ?thesis
        by (auto simp: e wf_index_def)
    next
      case gt: False
      with False have "k' < k" by auto
      with Cons.IH[OF tl] hd gt False show ?thesis
        using keys_index_put[of k v xs] by (auto simp: e wf_index_def)
    qed
  qed
qed

lemma map_of_index_erase [simp]: "map_of (index_erase k xs) = (map_of xs)(k := None)"
  by (induction xs) (auto simp: index_erase_def fun_eq_iff)

lemma wf_index_erase: "wf_index xs \<Longrightarrow> wf_index (index_erase k xs)"
  unfolding wf_index_def index_erase_def
  by (induction xs) auto

lemma wf_index_distinct: "wf_index xs \<Longrightarrow> distinct (map fst xs)"
  unfolding wf_index_def by (simp add: strict_sorted_iff)

lemma one_entry:
  "distinct (map fst xs) \<Longrightarrow> map_of xs k = Some v \<Longrightarrow> length (filter (\<lambda>e. fst e = k) xs) = 1"
proof (induction xs)
  case Nil
  then show ?case by simp
next
  case (Cons e xs)
  show ?case
  proof (cases "fst e = k")
    case True
    with Cons.prems have "k \<notin> fst ` set xs" by auto
    then have "filter (\<lambda>e. fst e = k) xs = []"
      by (auto simp: filter_empty_conv)
    with True show ?thesis by simp
  next
    case False
    with Cons show ?thesis by (cases e) auto
  qed
qed

lemma no_entry: "map_of xs k = None \<Longrightarrow> filter (\<lambda>e. fst e = k) xs = []"
  by (auto simp: filter_empty_conv map_of_eq_None_iff image_iff)

text \<open>\<open>same_index D D'\<close>: the index is the same, and the errors of \<open>D\<close> are the first of \<open>D'\<close>.\<close>

definition same_index :: "DynamicLoader \<Rightarrow> DynamicLoader \<Rightarrow> bool" where
  "same_index D D' = (LIs D' = LIs D \<and> (\<exists>es. Errors D' = Errors D @ es))"

lemma same_index_refl [simp]: "same_index D D"
  by (simp add: same_index_def)

lemma same_index_trans: "same_index D D1 \<Longrightarrow> same_index D1 D2 \<Longrightarrow> same_index D D2"
  unfolding same_index_def by (metis append.assoc)

lemma same_index_keeps: "same_index D D' \<Longrightarrow> keeps D D'"
  by (auto simp: same_index_def keeps_def)

lemma same_index_error [simp]: "same_index D (error Msg D)"
  by (simp add: same_index_def)

lemma same_index_fields:
  "LIs D' = LIs D \<Longrightarrow> Errors D' = Errors D \<Longrightarrow> same_index D D'"
  by (simp add: same_index_def)

lemma same_index_mapMemory [simp]: "same_index D (mapMemory W Addr Sz Perms D)"
  by (simp add: mapMemory_def same_index_fields)

lemma same_index_update_lib [simp]: "same_index D (update_lib LL f D)"
  by (simp add: update_lib_def same_index_fields)

lemma same_index_setIsWrapperDLL [simp]: "same_index D (setIsWrapperDLL BP L D)"
  by (simp add: setIsWrapperDLL_def split: option.splits)

lemma same_index_segmentBounds:
  "same_index D (snd (segmentBounds W Segs LowAddr HighAddr D))"
proof (induction Segs arbitrary: LowAddr HighAddr D)
  case Nil
  then show ?case by simp
next
  case (Cons Seg Segs)
  let ?SegLow = "virtual_address Seg"
  let ?SegHigh = "roundToPageSize W (?SegLow + virtual_size Seg)"
  let ?D1 = "if (?SegLow < HighAddr \<and> ?SegLow \<ge> LowAddr) \<or> (?SegHigh > LowAddr \<and> ?SegHigh \<le> HighAddr)
             then error ''overlapping segments (after rounding to pagesize)'' D else D"
  let ?Low = "if ?SegLow < LowAddr then ?SegLow else LowAddr"
  let ?High = "if ?SegHigh > HighAddr then ?SegHigh else HighAddr"
  have eq: "segmentBounds W (Seg # Segs) LowAddr HighAddr D = segmentBounds W Segs ?Low ?High ?D1"
    by (simp add: Let_def)
  have "same_index D ?D1" by simp
  moreover have "same_index ?D1 (snd (segmentBounds W Segs ?Low ?High ?D1))"
    by (rule Cons.IH)
  ultimately show ?case
    unfolding eq by (rule same_index_trans)
qed

lemma same_index_relocate [simp]:
  "same_index D (relocate LowAddr Slide VAddr VSize Rel D)"
proof -
  let ?D1 = "if is_pc_relative Rel \<or> origin Rel \<noteq> ORIGIN_DYLDINFO \<or> rel_size Rel \<noteq> 32 \<or>
                   (rel_address Rel AND R_SCATTERED) \<noteq> 0
                then error ''unsupported relocation'' D else D"
  let ?D2 = "if LowAddr + Slide + rel_address Rel > VAddr + VSize \<or> LowAddr + Slide + rel_address Rel < VAddr
                then error ''relocation target out of range'' ?D1 else ?D1"
  have 1: "same_index D ?D1" by simp
  have 2: "same_index ?D1 ?D2" by simp
  have 3: "same_index ?D2 (relocate LowAddr Slide VAddr VSize Rel D)"
    by (simp add: relocate_def Let_def same_index_fields)
  from 1 2 3 show ?thesis by (blast intro: same_index_trans)
qed

lemma same_index_fold:
  "(\<And>x D. same_index D (f x D)) \<Longrightarrow> same_index D (fold f xs D)"
proof (induction xs arbitrary: D)
  case Nil
  then show ?case by simp
next
  case (Cons x xs)
  from Cons.prems have "same_index D (f x D)" .
  moreover from Cons have "same_index (f x D) (fold f xs (f x D))" by blast
  ultimately show ?case by (simp add: same_index_trans)
qed

lemma same_index_copySegment [simp]:
  "same_index D (copySegment W VAddr VSize Perms Seg D)"
  by (simp add: copySegment_def Let_def mapMemory_def same_index_def error_def)

lemma same_index_loadSegment [simp]:
  "same_index D (loadSegment W LowAddr Slide Seg D)"
proof -
  have f: "\<And>D0 V S. same_index D D0 \<Longrightarrow>
      same_index D (fold (relocate LowAddr Slide V S) (relocations Seg) D0)"
    by (blast intro: same_index_trans same_index_fold same_index_relocate)
  show ?thesis
    unfolding loadSegment_def Let_def
    by (auto intro!: f)
qed

lemma insert_lib_facts:
  "fst (insert_lib P L D) = NextObj D"
  "LIs (snd (insert_lib P L D)) = index_put P (NextObj D) (LIs D)"
  "Errors (snd (insert_lib P L D)) = Errors D"
  by (simp_all add: insert_lib_def Let_def split: option.splits)

lemma keeps_insert_lib:
  "map_of (LIs D) P = None \<Longrightarrow> keeps D (snd (insert_lib P L D))"
  by (auto simp: keeps_def insert_lib_facts wf_index_put)

lemma checkHeader_same [simp]: "same_index D (checkHeader Bin D)"
  by (simp add: checkHeader_def Let_def same_index_def error_def)

lemma checkHeader_errors:
  "cpu_type (header Bin) \<noteq> CPU_TYPE_ARM \<Longrightarrow> ''expected ARM binary'' \<in> set (Errors (checkHeader Bin D))"
  "MH_SPLIT_SEGS \<in> set (flags (header Bin)) \<Longrightarrow>
     ''MH_SPLIT_SEGS not supported'' \<in> set (Errors (checkHeader Bin D))"
  "\<not> canSegmentsSlide Bin \<Longrightarrow> ''the binary is not slideable'' \<in> set (Errors (checkHeader Bin D))"
  by (simp_all add: checkHeader_def Let_def)

text \<open>What \<open>mapImage\<close> leaves: the index with the new entry, and the errors of the header.\<close>

lemma mapImage_facts:
  assumes "mapImage W P Bin D = (LLP, Slide, D10)"
  shows "LLP = NextObj D"
    and "LIs D10 = index_put P (NextObj D) (LIs D)"
    and "\<exists>es. Errors D10 = Errors (checkHeader Bin (snd (insert_lib P (new_LoadedDylib Bin) D))) @ es"
proof -
  let ?D2 = "snd (insert_lib P (new_LoadedDylib Bin) D)"
  let ?D5 = "checkHeader Bin ?D2"
  obtain LowAddr HighAddr D6 where sb:
    "segmentBounds W (segments Bin) (- 1) 0 ?D5 = ((LowAddr, HighAddr), D6)"
    by (metis prod.exhaust)
  let ?Sz = "HighAddr - LowAddr"
  let ?Addr = "aligned_malloc W (Allocs D6) (ucast ?Sz) (ucast (PageSize W))"
  let ?D7 = "D6\<lparr>Allocs := Suc (Allocs D6)\<rparr>"
  let ?D8 = "if ?Addr = 0 then error ''couldn't allocate memory for segments'' ?D7 else ?D7"
  let ?Slide = "ucast ?Addr - LowAddr"
  let ?D9 = "update_lib (NextObj D) (\<lambda>L. L\<lparr>StartAddress := Some ?Slide, Size := Some ?Sz\<rparr>) ?D8"
  let ?D10 = "fold (loadSegment W LowAddr ?Slide) (segments Bin) ?D9"
  have m: "mapImage W P Bin D = (NextObj D, ?Slide, ?D10)"
    by (simp add: mapImage_def Let_def insert_lib_facts split_beta sb)
  have "(NextObj D, ?Slide, ?D10) = (LLP, Slide, D10)"
    using assms unfolding m .
  then have eq: "LLP = NextObj D" "D10 = ?D10"
    by blast+
  have a: "same_index ?D5 D6"
    using same_index_segmentBounds[of ?D5 W "segments Bin" "- 1" 0] sb by simp
  have b: "same_index D6 ?D8"
    by (auto simp: same_index_def)
  have c: "same_index ?D8 ?D9" by simp
  have d: "same_index ?D9 ?D10"
    by (rule same_index_fold) simp
  from a b c d have e: "same_index ?D5 ?D10"
    by (blast intro: same_index_trans)
  show "LLP = NextObj D" by (rule eq)
  from e eq have "LIs D10 = LIs ?D5" by (simp add: same_index_def)
  also have "\<dots> = LIs ?D2" using checkHeader_same[of ?D2 Bin] by (simp add: same_index_def)
  finally show "LIs D10 = index_put P (NextObj D) (LIs D)" by (simp add: insert_lib_facts)
  from e eq show "\<exists>es. Errors D10 = Errors ?D5 @ es" by (simp add: same_index_def)
qed

lemma mapImage_keeps:
  assumes "mapImage W P Bin D = (LLP, Slide, D10)" and "map_of (LIs D) P = None"
  shows "keeps D D10"
proof -
  let ?D2 = "snd (insert_lib P (new_LoadedDylib Bin) D)"
  from mapImage_facts[OF assms(1)] obtain es where
    l: "LIs D10 = index_put P (NextObj D) (LIs D)" and
    e: "Errors D10 = Errors (checkHeader Bin ?D2) @ es" by blast
  from checkHeader_same[of ?D2 Bin] obtain es' where
    "Errors (checkHeader Bin ?D2) = Errors ?D2 @ es'" by (auto simp: same_index_def)
  with e have "Errors D10 = Errors D @ (es' @ es)" by (simp add: insert_lib_facts)
  with l assms(2) show ?thesis
    by (auto simp: keeps_def wf_index_put)
qed

definition ld_keeps ::
  "(string \<Rightarrow> DynamicLoader \<Rightarrow> (nat option result \<times> DynamicLoader) option) \<Rightarrow> bool" where
  "ld_keeps ld = (\<forall>P D r D'. ld P D = Some (r, D') \<longrightarrow> keeps D D')"

lemma ld_keepsD: "ld_keeps ld \<Longrightarrow> ld P D = Some (r, D') \<Longrightarrow> keeps D D'"
  by (auto simp: ld_keeps_def)

lemma loadLibraries_keeps:
  "ld_keeps ld \<Longrightarrow> loadLibraries ld Libs D = Some (r, D') \<Longrightarrow> keeps D D'"
proof (induction Libs arbitrary: D)
  case Nil
  then show ?case by simp
next
  case (Cons Lib Libs)
  from Cons.prems(2) obtain r1 D1 where l: "ld Lib D = Some (r1, D1)"
    by (auto split: option.splits)
  from ld_keepsD[OF Cons.prems(1) l] have k: "keeps D D1" .
  show ?case
  proof (cases r1)
    case (Returned x)
    with Cons.prems(2) l have "loadLibraries ld Libs D1 = Some (r, D')" by simp
    from Cons.IH[OF Cons.prems(1) this] k show ?thesis by (rule keeps_trans[rotated])
  next
    case (Thrown e)
    with Cons.prems(2) l k show ?thesis by simp
  qed
qed

lemma keeps_Mem [simp]: "keeps D (D'\<lparr>Mem := m\<rparr>) = keeps D D'"
  by (simp add: keeps_def)

lemma bindSymbol_keeps:
  assumes ld: "ld_keeps ld" and res: "bindSymbol W ld LLP Slide B D = Some (r, D')"
  shows "keeps D D'"
proof (cases "(binding_class B \<noteq> BIND_CLASS_STANDARD \<and> binding_class B \<noteq> BIND_CLASS_LAZY) \<or>
         binding_type B \<noteq> BIND_TYPE_POINTER \<or> addend B \<noteq> 0 \<or> \<not> has_library B")
  case True
  with res show ?thesis
    by (auto simp: bindSymbol_def split: if_splits)
next
  case False
  with res obtain r1 D1 where l: "ld (library_name B) D = Some (r1, D1)"
    by (auto simp: bindSymbol_def Let_def split: option.splits)
  from ld_keepsD[OF ld l] have k: "keeps D D1" .
  have ke: "\<And>m. keeps D (error m D1)"
    using k keeps_error keeps_trans by blast
  from res False l k ke show ?thesis
    by (auto simp: bindSymbol_def Let_def split: option.splits result.splits if_splits)
qed

lemma bindSymbols_keeps:
  "ld_keeps ld \<Longrightarrow> bindSymbols W ld LLP Slide Bs D = Some (r, D') \<Longrightarrow> keeps D D'"
proof (induction Bs arbitrary: D)
  case Nil
  then show ?case by simp
next
  case (Cons B Bs)
  from Cons.prems(2) obtain r1 D1 where l: "bindSymbol W ld LLP Slide B D = Some (r1, D1)"
    by (auto split: option.splits)
  from bindSymbol_keeps[OF Cons.prems(1) l] have k: "keeps D D1" .
  show ?case
  proof (cases r1)
    case (Returned x)
    with Cons.prems(2) l have "bindSymbols W ld LLP Slide Bs D1 = Some (r, D')" by simp
    from Cons.IH[OF Cons.prems(1) this] k show ?thesis by (rule keeps_trans[rotated])
  next
    case (Thrown e)
    with Cons.prems(2) l k show ?thesis by simp
  qed
qed

lemma loadMachO_cases:
  assumes "loadMachO W ld P D = Some (r, D')" and "parse W P = Some Bin"
    and "mapImage W P Bin D = (LLP, Slide, D10)"
  obtains (lib_thrown) e where "loadLibraries ld (libraries Bin) D10 = Some (Thrown e, D')" "r = Thrown e"
    | (bind_thrown) u D11 e where "loadLibraries ld (libraries Bin) D10 = Some (Returned u, D11)"
        "bindSymbols W ld LLP Slide (bindings Bin) D11 = Some (Thrown e, D')" "r = Thrown e"
    | (returned) u D11 u' where "loadLibraries ld (libraries Bin) D10 = Some (Returned u, D11)"
        "bindSymbols W ld LLP Slide (bindings Bin) D11 = Some (Returned u', D')" "r = Returned (Some LLP)"
  using assms
  by (auto simp: loadMachO_def split: option.splits result.splits)

lemma loadMachO_keeps:
  assumes ld: "ld_keeps ld" and new: "map_of (LIs D) P = None"
    and res: "loadMachO W ld P D = Some (r, D')"
  shows "keeps D D'"
proof (cases "parse W P")
  case None
  with res show ?thesis by (simp add: loadMachO_def)
next
  case (Some Bin)
  obtain LLP Slide D10 where m: "mapImage W P Bin D = (LLP, Slide, D10)"
    by (metis prod.exhaust)
  from mapImage_keeps[OF m new] have k: "keeps D D10" .
  from res Some m show ?thesis
  proof (cases rule: loadMachO_cases)
    case (lib_thrown e)
    from loadLibraries_keeps[OF ld lib_thrown(1)] k show ?thesis by (rule keeps_trans[rotated])
  next
    case (bind_thrown u D11 e)
    from loadLibraries_keeps[OF ld bind_thrown(1)] bindSymbols_keeps[OF ld bind_thrown(2)] k
    show ?thesis by (blast intro: keeps_trans)
  next
    case (returned u D11 u')
    from loadLibraries_keeps[OF ld returned(1)] bindSymbols_keeps[OF ld returned(2)] k
    show ?thesis by (blast intro: keeps_trans)
  qed
qed

lemma erase_lib_facts:
  "LIs (erase_lib P D) = index_erase P (LIs D)"
  "Errors (erase_lib P D) = Errors D"
  by (simp_all add: erase_lib_def Let_def split: option.splits)

text \<open>The three ways out of \<open>loadPE\<close>, for a path that the index does not hold.\<close>

lemma loadPE_failed_load:
  assumes "LoadPackagedLibrary W P = 0"
  shows "fst (loadPE W P D) = None"
    and "LIs (snd (loadPE W P D)) = index_erase P (index_put P (NextObj D) (LIs D))"
    and "Errors (snd (loadPE W P D)) = Errors D @ [''couldn't load DLL: '' @ P]"
  using assms
  by (simp_all add: loadPE_def Let_def split_beta insert_lib_facts erase_lib_facts)

lemma loadPE_failed_info:
  assumes "LoadPackagedLibrary W P \<noteq> 0"
    and "GetModuleInformation W (LoadPackagedLibrary W P) = None"
  shows "fst (loadPE W P D) = None"
    and "LIs (snd (loadPE W P D)) = index_put P (NextObj D) (LIs D)"
    and "Errors (snd (loadPE W P D)) = Errors D @ [''couldn't load module information'']"
  using assms
  by (simp_all add: loadPE_def Let_def split_beta insert_lib_facts update_lib_def)

lemma loadPE_loaded:
  assumes "LoadPackagedLibrary W P \<noteq> 0"
    and "GetModuleInformation W (LoadPackagedLibrary W P) = Some info"
  shows "fst (loadPE W P D) = Some (NextObj D)"
    and "LIs (snd (loadPE W P D)) = index_put P (NextObj D) (LIs D)"
    and "\<exists>es. Errors (snd (loadPE W P D)) = Errors D @ es"
  using assms
  by (simp_all add: loadPE_def Let_def split_beta insert_lib_facts update_lib_def
        mapMemory_def error_def)

lemma index_erase_put:
  "map_of xs k = None \<Longrightarrow> map_of (index_erase k (index_put k v xs)) = map_of xs"
  by (auto simp: fun_eq_iff)

lemma loadPE_keeps:
  assumes new: "map_of (LIs D) P = None"
  shows "keeps D (snd (loadPE W P D))"
proof (cases "LoadPackagedLibrary W P = 0")
  case True
  from loadPE_failed_load[OF True, of D] new show ?thesis
    by (auto simp: keeps_def wf_index_put wf_index_erase)
next
  case False
  show ?thesis
  proof (cases "GetModuleInformation W (LoadPackagedLibrary W P)")
    case None
    from loadPE_failed_info[OF False None, of D] new show ?thesis
      by (auto simp: keeps_def wf_index_put)
  next
    case (Some info)
    from loadPE_loaded[OF False Some, of D] new show ?thesis
      by (auto simp: keeps_def wf_index_put)
  qed
qed

lemma loadPE_result:
  "fst (loadPE W P D) = Some L \<Longrightarrow> map_of (LIs (snd (loadPE W P D))) P = Some L"
proof (cases "LoadPackagedLibrary W P = 0")
  case True
  assume "fst (loadPE W P D) = Some L"
  with loadPE_failed_load(1)[OF True, of D] show ?thesis by simp
next
  case False
  assume r: "fst (loadPE W P D) = Some L"
  show ?thesis
  proof (cases "GetModuleInformation W (LoadPackagedLibrary W P)")
    case None
    with loadPE_failed_info(1)[OF False None, of D] r show ?thesis by simp
  next
    case (Some info)
    from loadPE_loaded(1,2)[OF False Some, of D] r show ?thesis by simp
  qed
qed

lemma keeps_setIsWrapperDLL: "keeps D D' \<Longrightarrow> keeps D (setIsWrapperDLL BP L D')"
  using same_index_keeps[OF same_index_setIsWrapperDLL] keeps_trans by blast

lemma LIs_setIsWrapperDLL [simp]: "LIs (setIsWrapperDLL BP L D) = LIs D"
  using same_index_setIsWrapperDLL[of D BP L] by (simp add: same_index_def)

text \<open>The ways through \<open>load_body\<close>.\<close>

lemma load_body_cases:
  assumes "load_body W ld P D = Some (r, D')"
  obtains (cached) L where "map_of (LIs D) (Path (resolvePath P)) = Some L"
        "r = Returned (Some L)" "D' = D"
    | (invalid) "map_of (LIs D) (Path (resolvePath P)) = None" "\<not> isFileValid W (resolvePath P)"
        "r = Returned None" "D' = error (''invalid file: '' @ Path (resolvePath P)) D"
    | (macho_thrown) e where "map_of (LIs D) (Path (resolvePath P)) = None"
        "isFileValid W (resolvePath P)" "is_macho W (Path (resolvePath P))"
        "loadMachO W ld (Path (resolvePath P)) D = Some (Thrown e, D')" "r = Thrown e"
    | (macho) L D1 where "map_of (LIs D) (Path (resolvePath P)) = None"
        "isFileValid W (resolvePath P)" "is_macho W (Path (resolvePath P))"
        "loadMachO W ld (Path (resolvePath P)) D = Some (Returned L, D1)" "r = Returned L"
        "D' = setIsWrapperDLL (resolvePath P) L D1"
    | (pe) "map_of (LIs D) (Path (resolvePath P)) = None"
        "isFileValid W (resolvePath P)" "\<not> is_macho W (Path (resolvePath P))"
        "is_pe W (Path (resolvePath P))"
        "r = Returned (fst (loadPE W (Path (resolvePath P)) D))"
        "D' = setIsWrapperDLL (resolvePath P) (fst (loadPE W (Path (resolvePath P)) D))
                (snd (loadPE W (Path (resolvePath P)) D))"
    | (other) "map_of (LIs D) (Path (resolvePath P)) = None"
        "isFileValid W (resolvePath P)" "\<not> is_macho W (Path (resolvePath P))"
        "\<not> is_pe W (Path (resolvePath P))"
        "r = Returned None" "D' = error (''invalid binary type: '' @ Path (resolvePath P)) D"
  using assms
  by (auto simp: load_body_def Let_def split_beta
           split: option.splits if_splits result.splits)

lemma load_body_keeps:
  assumes ld: "ld_keeps ld"
  shows "ld_keeps (load_body W ld)"
  unfolding ld_keeps_def
proof (intro allI impI)
  fix P D r D'
  assume "load_body W ld P D = Some (r, D')"
  then show "keeps D D'"
  proof (cases rule: load_body_cases)
    case (cached L)
    then show ?thesis by simp
  next
    case invalid
    then show ?thesis by simp
  next
    case (macho_thrown e)
    from loadMachO_keeps[OF ld macho_thrown(1,4)] show ?thesis .
  next
    case (macho L D1)
    from loadMachO_keeps[OF ld macho(1,4)] macho(6) show ?thesis
      by (simp add: keeps_setIsWrapperDLL)
  next
    case pe
    from loadPE_keeps[OF pe(1), of W] pe(6) show ?thesis
      by (simp add: keeps_setIsWrapperDLL)
  next
    case other
    then show ?thesis by simp
  qed
qed

lemma load_keeps: "ld_keeps (load n W)"
proof (induction n)
  case 0
  show ?case by (simp add: ld_keeps_def)
next
  case (Suc n)
  then show ?case by (simp add: load_body_keeps)
qed

lemma load_keepsD: "load n W P D = Some (r, D') \<Longrightarrow> keeps D D'"
  using load_keeps ld_keepsD by blast

text \<open>A record that \<open>load\<close> returns is the record of the index under the resolved path.\<close>

lemma load_indexed:
  assumes "load n W P D = Some (Returned (Some L), D')"
  shows "map_of (LIs D') (Path (resolvePath P)) = Some L"
proof (cases n)
  case 0
  with assms show ?thesis by simp
next
  case (Suc m)
  let ?P = "Path (resolvePath P)"
  from assms Suc have "load_body W (load m W) P D = Some (Returned (Some L), D')" by simp
  then show ?thesis
  proof (cases rule: load_body_cases)
    case (cached L')
    then show ?thesis by simp
  next
    case (macho L' D1)
    from macho(3) obtain Bin where p: "parse W ?P = Some Bin"
      by (auto simp: is_macho_def parse_def split: option.splits FileImage.splits)
    obtain LLP Slide D10 where m: "mapImage W ?P Bin D = (LLP, Slide, D10)"
      by (metis prod.exhaust)
    from mapImage_facts(2)[OF m] mapImage_facts(1)[OF m]
    have i: "map_of (LIs D10) ?P = Some LLP" by simp
    from macho(4) p m have "map_of (LIs D1) ?P = Some LLP \<and> L' = Some LLP"
    proof (cases rule: loadMachO_cases)
      case (returned u D11 u')
      from loadLibraries_keeps[OF load_keeps returned(1)] bindSymbols_keeps[OF load_keeps returned(2)]
      have "keeps D10 D1" by (rule keeps_trans)
      from keeps_entry[OF this i] returned(3) show ?thesis by simp
    qed simp_all
    with macho(5,6) show ?thesis by simp
  next
    case pe
    with loadPE_result[of W ?P D L] show ?thesis by simp
  qed simp_all
qed

section \<open>Every load returns\<close>

text \<open>
  The Mach-O files that the index does not hold yet. Each \<^verbatim>\<open>loadMachO\<close> takes one
  of them into the index before it loads anything else, and no load takes one out.
\<close>

definition pending :: "World \<Rightarrow> DynamicLoader \<Rightarrow> nat" where
  "pending W D = card {p. is_macho W p \<and> map_of (LIs D) p = None}"

lemma macho_files_finite: "finite {p. is_macho W p}"
proof (rule finite_subset)
  show "{p. is_macho W p} \<subseteq> fst ` set (Files W)"
    by (auto simp: is_macho_def split: option.splits dest!: map_of_SomeD intro: rev_image_eqI)
qed simp

lemma pending_finite: "finite {p. is_macho W p \<and> map_of (LIs D) p = None}"
  by (rule finite_subset[OF _ macho_files_finite[of W]]) auto

lemma pending_bound: "pending W D \<le> length (Files W)"
proof -
  have "{p. is_macho W p \<and> map_of (LIs D) p = None} \<subseteq> fst ` set (Files W)"
    by (auto simp: is_macho_def split: option.splits dest!: map_of_SomeD intro: rev_image_eqI)
  then have "pending W D \<le> card (fst ` set (Files W))"
    unfolding pending_def by (intro card_mono) auto
  also have "\<dots> \<le> card (set (Files W))" by (rule card_image_le) simp
  also have "\<dots> \<le> length (Files W)" by (rule card_length)
  finally show ?thesis .
qed

lemma pending_mono: "keeps D D' \<Longrightarrow> pending W D' \<le> pending W D"
  unfolding pending_def
proof (rule card_mono[OF pending_finite])
  assume k: "keeps D D'"
  show "{p. is_macho W p \<and> map_of (LIs D') p = None} \<subseteq> {p. is_macho W p \<and> map_of (LIs D) p = None}"
  proof
    fix p
    assume "p \<in> {p. is_macho W p \<and> map_of (LIs D') p = None}"
    then have m: "is_macho W p" and n: "map_of (LIs D') p = None" by auto
    have "map_of (LIs D) p = None"
    proof (cases "map_of (LIs D) p")
      case (Some v)
      from keeps_entry[OF k Some] n show ?thesis by simp
    qed simp
    with m show "p \<in> {p. is_macho W p \<and> map_of (LIs D) p = None}" by simp
  qed
qed

lemma pending_insert:
  assumes "is_macho W P" and "map_of (LIs D) P = None" and "LIs D' = index_put P v (LIs D)"
  shows "pending W D' < pending W D"
  unfolding pending_def
proof (rule psubset_card_mono[OF pending_finite])
  have "{p. is_macho W p \<and> map_of (LIs D') p = None} \<subseteq> {p. is_macho W p \<and> map_of (LIs D) p = None}"
    using assms(3) by (auto split: if_splits)
  moreover have "P \<in> {p. is_macho W p \<and> map_of (LIs D) p = None}" using assms by simp
  moreover have "P \<notin> {p. is_macho W p \<and> map_of (LIs D') p = None}" using assms(3) by simp
  ultimately show "{p. is_macho W p \<and> map_of (LIs D') p = None} \<subset> {p. is_macho W p \<and> map_of (LIs D) p = None}"
    by blast
qed

definition total_below ::
  "World \<Rightarrow> (string \<Rightarrow> DynamicLoader \<Rightarrow> (nat option result \<times> DynamicLoader) option) \<Rightarrow> nat \<Rightarrow> bool" where
  "total_below W ld m = (\<forall>P D. pending W D < m \<longrightarrow> ld P D \<noteq> None)"

lemma total_belowD: "total_below W ld m \<Longrightarrow> pending W D < m \<Longrightarrow> \<exists>r D'. ld P D = Some (r, D')"
  by (auto simp: total_below_def)

lemma loadLibraries_total:
  "ld_keeps ld \<Longrightarrow> total_below W ld m \<Longrightarrow> pending W D < m \<Longrightarrow>
     loadLibraries ld Libs D \<noteq> None"
proof (induction Libs arbitrary: D)
  case Nil
  then show ?case by simp
next
  case (Cons Lib Libs)
  from total_belowD[OF Cons.prems(2,3)] obtain r1 D1 where l: "ld Lib D = Some (r1, D1)"
    by blast
  from pending_mono[OF ld_keepsD[OF Cons.prems(1) l], of W] Cons.prems(3)
  have "pending W D1 < m" by simp
  from Cons.IH[OF Cons.prems(1,2) this] l show ?case
    by (cases r1) auto
qed

lemma bindSymbol_total:
  assumes "total_below W ld m" and "pending W D < m"
  shows "bindSymbol W ld LLP Slide B D \<noteq> None"
proof -
  from total_belowD[OF assms] obtain r1 D1 where "ld (library_name B) D = Some (r1, D1)"
    by blast
  then show ?thesis
    by (auto simp: bindSymbol_def Let_def split: result.splits option.splits)
qed

lemma bindSymbols_total:
  "ld_keeps ld \<Longrightarrow> total_below W ld m \<Longrightarrow> pending W D < m \<Longrightarrow>
     bindSymbols W ld LLP Slide Bs D \<noteq> None"
proof (induction Bs arbitrary: D)
  case Nil
  then show ?case by simp
next
  case (Cons B Bs)
  from bindSymbol_total[OF Cons.prems(2,3)] obtain r1 D1 where
    l: "bindSymbol W ld LLP Slide B D = Some (r1, D1)" by fastforce
  from pending_mono[OF bindSymbol_keeps[OF Cons.prems(1) l], of W] Cons.prems(3)
  have "pending W D1 < m" by simp
  from Cons.IH[OF Cons.prems(1,2) this] l show ?case
    by (cases r1) auto
qed

lemma loadMachO_total:
  assumes ld: "ld_keeps ld" and tot: "total_below W ld m"
    and macho: "is_macho W P" and new: "map_of (LIs D) P = None"
    and p: "pending W D < Suc m"
  shows "loadMachO W ld P D \<noteq> None"
proof -
  from macho obtain Bin where b: "parse W P = Some Bin"
    by (auto simp: is_macho_def parse_def split: option.splits FileImage.splits)
  obtain LLP Slide D10 where mi: "mapImage W P Bin D = (LLP, Slide, D10)"
    by (metis prod.exhaust)
  from pending_insert[OF macho new mapImage_facts(2)[OF mi]] p
  have p10: "pending W D10 < m" by simp
  from loadLibraries_total[OF ld tot p10] obtain r1 D11 where
    ll: "loadLibraries ld (libraries Bin) D10 = Some (r1, D11)" by fastforce
  from pending_mono[OF loadLibraries_keeps[OF ld ll], of W] p10
  have "pending W D11 < m" by simp
  from bindSymbols_total[OF ld tot this] obtain r2 D12 where
    "bindSymbols W ld LLP Slide (bindings Bin) D11 = Some (r2, D12)" by fastforce
  with b mi ll show ?thesis
    by (auto simp: loadMachO_def split: result.splits)
qed

lemma load_body_total:
  assumes ld: "ld_keeps ld" and tot: "total_below W ld m"
  shows "total_below W (load_body W ld) (Suc m)"
  unfolding total_below_def
proof (intro allI impI)
  fix P D
  assume p: "pending W D < Suc m"
  show "load_body W ld P D \<noteq> None"
  proof (cases "map_of (LIs D) (Path (resolvePath P)) = None \<and> isFileValid W (resolvePath P) \<and>
      is_macho W (Path (resolvePath P))")
    case True
    with loadMachO_total[OF ld tot _ _ p, of "Path (resolvePath P)"] show ?thesis
      by (auto simp: load_body_def Let_def split: result.splits)
  next
    case False
    then show ?thesis
      by (auto simp: load_body_def Let_def split_beta split: option.splits)
  qed
qed

lemma load_total: "total_below W (load n W) n"
proof (induction n)
  case 0
  show ?case by (simp add: total_below_def)
next
  case (Suc n)
  from load_body_total[OF load_keeps Suc] show ?case by simp
qed

lemma load_returns: "\<exists>r D'. load (Suc (length (Files W))) W P D = Some (r, D')"
proof -
  have "pending W D < Suc (length (Files W))"
    using pending_bound[of W D] by simp
  from total_belowD[OF load_total this] show ?thesis .
qed

text \<open>A load that returns within a bound returns the same within any greater bound.\<close>

lemma loadLibraries_mono:
  "(\<And>P D x. ld P D = Some x \<Longrightarrow> ld' P D = Some x) \<Longrightarrow>
     loadLibraries ld Libs D = Some y \<Longrightarrow> loadLibraries ld' Libs D = Some y"
proof (induction Libs arbitrary: D)
  case Nil
  then show ?case by simp
next
  case (Cons Lib Libs)
  from Cons.prems(2) obtain r1 D1 where l: "ld Lib D = Some (r1, D1)"
    by (auto split: option.splits)
  from Cons.prems(1)[OF l] have l': "ld' Lib D = Some (r1, D1)" .
  show ?case
  proof (cases r1)
    case (Returned x)
    with Cons.prems(2) l have "loadLibraries ld Libs D1 = Some y" by simp
    from Cons.IH[OF Cons.prems(1) this] l' Returned show ?thesis by simp
  next
    case (Thrown e)
    with Cons.prems(2) l l' show ?thesis by simp
  qed
qed

lemma bindSymbol_cong_ld:
  "ld (library_name B) D = ld' (library_name B) D \<Longrightarrow>
     bindSymbol W ld LLP Slide B D = bindSymbol W ld' LLP Slide B D"
  unfolding bindSymbol_def Let_def by simp

lemma bindSymbol_mono:
  assumes "\<And>P D x. ld P D = Some x \<Longrightarrow> ld' P D = Some x"
    and "bindSymbol W ld LLP Slide B D = Some y"
  shows "bindSymbol W ld' LLP Slide B D = Some y"
proof (cases "ld (library_name B) D")
  case None
  with assms(2) have "(binding_class B \<noteq> BIND_CLASS_STANDARD \<and> binding_class B \<noteq> BIND_CLASS_LAZY) \<or>
         binding_type B \<noteq> BIND_TYPE_POINTER \<or> addend B \<noteq> 0 \<or> \<not> has_library B"
    by (auto simp: bindSymbol_def Let_def split: if_splits)
  with assms(2) show ?thesis by (auto simp: bindSymbol_def split: if_splits)
next
  case (Some x)
  from assms(1)[OF Some] Some have "ld (library_name B) D = ld' (library_name B) D" by simp
  from bindSymbol_cong_ld[of ld B D ld' W LLP Slide] this assms(2) show ?thesis by simp
qed

lemma bindSymbols_mono:
  "(\<And>P D x. ld P D = Some x \<Longrightarrow> ld' P D = Some x) \<Longrightarrow>
     bindSymbols W ld LLP Slide Bs D = Some y \<Longrightarrow> bindSymbols W ld' LLP Slide Bs D = Some y"
proof (induction Bs arbitrary: D)
  case Nil
  then show ?case by simp
next
  case (Cons B Bs)
  from Cons.prems(2) obtain r1 D1 where l: "bindSymbol W ld LLP Slide B D = Some (r1, D1)"
    by (auto split: option.splits)
  from bindSymbol_mono[of ld ld', OF Cons.prems(1) l] have l': "bindSymbol W ld' LLP Slide B D = Some (r1, D1)" .
  show ?case
  proof (cases r1)
    case (Returned x)
    with Cons.prems(2) l have "bindSymbols W ld LLP Slide Bs D1 = Some y" by simp
    from Cons.IH[OF Cons.prems(1) this] l' Returned show ?thesis by simp
  next
    case (Thrown e)
    with Cons.prems(2) l have "y = (Thrown e, D1)" by simp
    with l' Thrown show ?thesis by simp
  qed
qed

lemma loadMachO_mono:
  assumes m: "\<And>P D x. ld P D = Some x \<Longrightarrow> ld' P D = Some x"
    and res: "loadMachO W ld P D = Some y"
  shows "loadMachO W ld' P D = Some y"
proof (cases "parse W P")
  case None
  with res show ?thesis by (simp add: loadMachO_def)
next
  case (Some Bin)
  obtain LLP Slide D10 where mi: "mapImage W P Bin D = (LLP, Slide, D10)"
    by (metis prod.exhaust)
  obtain r D' where y: "y = (r, D')" by (cases y)
  from res[unfolded y] Some mi show ?thesis
  proof (cases rule: loadMachO_cases)
    case (lib_thrown e)
    from loadLibraries_mono[of ld ld', OF m lib_thrown(1)] lib_thrown(2) Some mi y show ?thesis
      by (simp add: loadMachO_def)
  next
    case (bind_thrown u D11 e)
    from loadLibraries_mono[of ld ld', OF m bind_thrown(1)]
      bindSymbols_mono[of ld ld', OF m bind_thrown(2)] bind_thrown(3) Some mi y
    show ?thesis by (simp add: loadMachO_def)
  next
    case (returned u D11 u')
    from loadLibraries_mono[of ld ld', OF m returned(1)]
      bindSymbols_mono[of ld ld', OF m returned(2)] returned(3) Some mi y
    show ?thesis by (simp add: loadMachO_def)
  qed
qed

lemma load_body_mono:
  assumes m: "\<And>P D x. ld P D = Some x \<Longrightarrow> ld' P D = Some x"
    and res: "load_body W ld P D = Some y"
  shows "load_body W ld' P D = Some y"
proof -
  obtain r D' where y: "y = (r, D')" by (cases y)
  from res[unfolded y] show ?thesis
  proof (cases rule: load_body_cases)
    case (macho_thrown e)
    from loadMachO_mono[of ld ld', OF m macho_thrown(4)] macho_thrown y show ?thesis
      by (simp add: load_body_def)
  next
    case (macho L D1)
    from loadMachO_mono[of ld ld', OF m macho(4)] macho y show ?thesis
      by (simp add: load_body_def)
  qed (simp_all add: load_body_def y split_beta Let_def)
qed

lemma load_Suc_mono: "load n W P D = Some y \<Longrightarrow> load (Suc n) W P D = Some y"
proof (induction n arbitrary: P D y)
  case 0
  then show ?case by simp
next
  case (Suc n)
  from Suc.prems have "load_body W (load n W) P D = Some y" by simp
  from load_body_mono[of "load n W" "load (Suc n) W", OF Suc.IH this]
  show ?case by simp
qed

lemma load_mono: "load n W P D = Some y \<Longrightarrow> n \<le> m \<Longrightarrow> load m W P D = Some y"
  by (induction m) (auto simp: le_Suc_eq dest: load_Suc_mono simp del: load.simps)

end
